theory Spec2Isabelle
  imports Main "HOL-Library.Word" "HOL-Library.Multiset"
begin

section \<open>strace-perfetto: the trace-event pipeline\<close>

text \<open>
  A shallow embedding of \<^verbatim>\<open>events.go\<close> and of the parsing part of \<^verbatim>\<open>main.go\<close>.
  Go's \<^verbatim>\<open>int\<close> and \<^verbatim>\<open>uint64\<close> are 64-bit words (\<open>+\<close> and \<open>-\<close> wrap, \<open>sint\<close> reads an
  \<^verbatim>\<open>int\<close>), strings are character lists, one \<open>char\<close> standing for one rune of the line,
  maps are partial functions, and every way the program stops early
  (\<^verbatim>\<open>log.Fatal\<close>, an index out of range, a nil pointer dereference) is a value of \<open>error\<close>.
  The resource monitor of \<^verbatim>\<open>resources.go\<close> computes in \<^verbatim>\<open>float64\<close> from the wall clock and
  from files of the control group; it is not embedded, and the events it hands to the
  merge are an input of the run.
\<close>

subsection \<open>Errors and integers\<close>

type_synonym go_int = "64 word"
type_synonym uint64 = "64 word"

datatype error =
    Fatal             \<comment> \<open>\<^verbatim>\<open>log.Fatal\<close>: the process exits with status 1\<close>
  | IndexOutOfRange   \<comment> \<open>runtime panic: index out of range\<close>
  | NilDereference    \<comment> \<open>runtime panic: nil pointer dereference\<close>

subsection \<open>The library functions the code calls\<close>

definition isDigit :: "char \<Rightarrow> bool" where
  "isDigit c = (48 \<le> (of_char c :: nat) \<and> (of_char c :: nat) \<le> 57)"

text \<open>The digit loop of \<^verbatim>\<open>strconv.Atoi\<close>: \<^verbatim>\<open>n = n*10 + int(ch - '0')\<close>.\<close>

fun decimal :: "int \<Rightarrow> string \<Rightarrow> int" where
  "decimal n [] = n"
| "decimal n (ch # s) = decimal (n * 10 + (of_char ch - 48)) s"

text \<open>
  \<^verbatim>\<open>strconv.Atoi\<close> on a 64-bit platform: an optional sign, then at least one digit and
  nothing but digits (base 10, no underscores); a value outside the range of \<^verbatim>\<open>int\<close> is
  an error. \<open>None\<close> stands for \<^verbatim>\<open>err != nil\<close>.
\<close>

definition Atoi :: "string \<Rightarrow> go_int option" where
  "Atoi s0 =
     (let neg = (s0 \<noteq> [] \<and> hd s0 = CHR ''-'');
          s = (if s0 \<noteq> [] \<and> (hd s0 = CHR ''-'' \<or> hd s0 = CHR ''+'') then tl s0 else s0)
      in if s = [] \<or> \<not> list_all isDigit s then None
         else let n = (if neg then - decimal 0 s else decimal 0 s)
              in if - (2 ^ 63) \<le> n \<and> n < 2 ^ 63 then Some (word_of_int n) else None)"

fun digits :: "nat \<Rightarrow> string" where
  "digits n =
     (if n < 10 then [''0123456789'' ! n] else digits (n div 10) @ [''0123456789'' ! (n mod 10)])"

declare digits.simps [simp del]

text \<open>\<^verbatim>\<open>strconv.Itoa\<close>.\<close>

definition Itoa :: "go_int \<Rightarrow> string" where
  "Itoa i = (if sint i < 0 then CHR ''-'' # digits (nat (- sint i)) else digits (nat (sint i)))"

text \<open>\<^verbatim>\<open>strings.Split(s, sep)\<close> for a separator of one character.\<close>

fun Split :: "string \<Rightarrow> char \<Rightarrow> string list" where
  "Split [] sep = [[]]"
| "Split (c # cs) sep =
     (if c = sep then [] # Split cs sep
      else (case Split cs sep of w # ws \<Rightarrow> (c # w) # ws | [] \<Rightarrow> [[c]]))"

definition HasPrefix :: "string \<Rightarrow> string \<Rightarrow> bool" where
  "HasPrefix s p = (take (length p) s = p)"

fun Contains :: "string \<Rightarrow> string \<Rightarrow> bool" where
  "Contains [] substr = (substr = [])"
| "Contains (c # cs) substr = (HasPrefix (c # cs) substr \<or> Contains cs substr)"

text \<open>\<^verbatim>\<open>unicode.IsSpace\<close> on the Latin-1 range, and \<^verbatim>\<open>strings.TrimSpace\<close>.\<close>

definition isSpace :: "char \<Rightarrow> bool" where
  "isSpace c = ((of_char c :: nat) \<in> {9, 10, 11, 12, 13, 32, 133, 160})"

definition TrimSpace :: "string \<Rightarrow> string" where
  "TrimSpace s = rev (dropWhile isSpace (rev (dropWhile isSpace s)))"

text \<open>\<^verbatim>\<open>path.Base\<close>: the last element of a slash-separated path.\<close>

definition Base :: "string \<Rightarrow> string" where
  "Base p =
     (if p = [] then ''.''
      else let p1 = rev (dropWhile (\<lambda>c. c = CHR ''/'') (rev p));
               p2 = rev (takeWhile (\<lambda>c. c \<noteq> CHR ''/'') (rev p1))
           in if p2 = [] then ''/'' else p2)"

text \<open>A slice index that panics out of range.\<close>

definition index :: "'a list \<Rightarrow> nat \<Rightarrow> error + 'a" where
  "index xs i = (if i < length xs then Inr (xs ! i) else Inl IndexOutOfRange)"

subsection \<open>Regular expressions\<close>

text \<open>
  The five line grammars of \<^verbatim>\<open>events.go\<close> as syntax trees, and \<^verbatim>\<open>MatchString\<close> by partial
  derivatives. Every pattern starts with \<^verbatim>\<open>^\<close> and none ends with \<^verbatim>\<open>$\<close>, so a line matches
  when one of its prefixes is in the language of the pattern. Which substrings the groups
  capture is a matter of Go's \<^verbatim>\<open>regexp\<close> library and is a parameter below.
\<close>

datatype cclass =
    CDigit         \<comment> \<open>\<^verbatim>\<open>\d\<close>\<close>
  | CWord          \<comment> \<open>\<^verbatim>\<open>\w\<close>\<close>
  | CSpace         \<comment> \<open>\<^verbatim>\<open>\s\<close>\<close>
  | CAny           \<comment> \<open>\<^verbatim>\<open>.\<close>: any character but a newline\<close>
  | CChar char     \<comment> \<open>a literal character\<close>

fun cmatch :: "cclass \<Rightarrow> char \<Rightarrow> bool" where
  "cmatch CDigit c = isDigit c"
| "cmatch CWord c =
     (isDigit c \<or> (65 \<le> (of_char c :: nat) \<and> (of_char c :: nat) \<le> 90)
      \<or> (97 \<le> (of_char c :: nat) \<and> (of_char c :: nat) \<le> 122) \<or> c = CHR ''_'')"
| "cmatch CSpace c = ((of_char c :: nat) \<in> {9, 10, 12, 13, 32})"
| "cmatch CAny c = ((of_char c :: nat) \<noteq> 10)"
| "cmatch (CChar d) c = (c = d)"

datatype rx = Eps | Atom cclass | Seq rx rx | Alt rx rx | Star rx

definition Plus :: "rx \<Rightarrow> rx" where
  "Plus r = Seq r (Star r)"

fun Lit :: "string \<Rightarrow> rx" where
  "Lit [] = Eps"
| "Lit [c] = Atom (CChar c)"
| "Lit (c # cs) = Seq (Atom (CChar c)) (Lit cs)"

fun Seqs :: "rx list \<Rightarrow> rx" where
  "Seqs [] = Eps"
| "Seqs [r] = r"
| "Seqs (r # rs) = Seq r (Seqs rs)"

fun nullable :: "rx \<Rightarrow> bool" where
  "nullable Eps = True"
| "nullable (Atom a) = False"
| "nullable (Seq r s) = (nullable r \<and> nullable s)"
| "nullable (Alt r s) = (nullable r \<or> nullable s)"
| "nullable (Star r) = True"

fun pderiv :: "char \<Rightarrow> rx \<Rightarrow> rx list" where
  "pderiv c Eps = []"
| "pderiv c (Atom a) = (if cmatch a c then [Eps] else [])"
| "pderiv c (Seq r s) =
     map (\<lambda>r'. Seq r' s) (pderiv c r) @ (if nullable r then pderiv c s else [])"
| "pderiv c (Alt r s) = pderiv c r @ pderiv c s"
| "pderiv c (Star r) = map (\<lambda>r'. Seq r' (Star r)) (pderiv c r)"

fun matchFrom :: "rx list \<Rightarrow> string \<Rightarrow> bool" where
  "matchFrom rs [] = list_ex nullable rs"
| "matchFrom rs (c # cs) =
     (list_ex nullable rs \<or> matchFrom (remdups (concat (map (pderiv c) rs))) cs)"

definition MatchString :: "rx \<Rightarrow> string \<Rightarrow> bool" where
  "MatchString r s = matchFrom [r] s"

text \<open>The common head \<^verbatim>\<open>^(\d+) +(\d+\.\d+)\<close> of the five grammars.\<close>

definition rePidTs :: "rx list" where
  "rePidTs = [Plus (Atom CDigit), Plus (Lit '' ''),
              Plus (Atom CDigit), Lit ''.'', Plus (Atom CDigit)]"

text \<open>\<^verbatim>\<open>^(\d+) +(\d+\.\d+) +(\w+)+((?:\(\)|\(.+\))) +\= (.+) +<(.+)>\<close>\<close>

definition regexpSuccessful :: rx where
  "regexpSuccessful = Seqs (rePidTs @
     [Plus (Lit '' ''), Plus (Plus (Atom CWord)),
      Alt (Lit ''()'') (Seqs [Lit ''('', Plus (Atom CAny), Lit '')'']),
      Plus (Lit '' ''), Lit ''= '', Plus (Atom CAny),
      Plus (Lit '' ''), Lit ''<'', Plus (Atom CAny), Lit ''>''])"

text \<open>\<^verbatim>\<open>^(\d+) +(\d+\.\d+) +(\w+)+((?:\(\)|\(.+\))) +\= (\-.+) +<(.+)>\<close>\<close>

definition regexpFailed :: rx where
  "regexpFailed = Seqs (rePidTs @
     [Plus (Lit '' ''), Plus (Plus (Atom CWord)),
      Alt (Lit ''()'') (Seqs [Lit ''('', Plus (Atom CAny), Lit '')'']),
      Plus (Lit '' ''), Lit ''= '', Lit ''-'', Plus (Atom CAny),
      Plus (Lit '' ''), Lit ''<'', Plus (Atom CAny), Lit ''>''])"

text \<open>\<^verbatim>\<open>^(\d+) +(\d+\.\d+) +(\w+)+(.+)<unfinished ...>\<close> (the three dots are wildcards)\<close>

definition regexpUnfinished :: rx where
  "regexpUnfinished = Seqs (rePidTs @
     [Plus (Lit '' ''), Plus (Plus (Atom CWord)), Plus (Atom CAny),
      Lit ''<unfinished '', Atom CAny, Atom CAny, Atom CAny, Lit ''>''])"

text \<open>\<^verbatim>\<open>^(\d+) +(\d+\.\d+) <... +(\w+) resumed>+((?:.|.+\))) +\= (.+) +<(.+)>\<close>\<close>

definition regexpDetached :: rx where
  "regexpDetached = Seqs (rePidTs @
     [Lit '' <'', Atom CAny, Atom CAny, Atom CAny, Plus (Lit '' ''), Plus (Atom CWord),
      Lit '' resumed'', Plus (Lit ''>''),
      Alt (Atom CAny) (Seqs [Plus (Atom CAny), Lit '')'']),
      Plus (Lit '' ''), Lit ''= '', Plus (Atom CAny),
      Plus (Lit '' ''), Lit ''<'', Plus (Atom CAny), Lit ''>''])"

text \<open>\<^verbatim>\<open>^(\d+) +(\d+\.\d+) +(\+\+\+\s+(.*)\s+\+\+\+)\<close>\<close>

definition regexpExited :: rx where
  "regexpExited = Seqs (rePidTs @
     [Plus (Lit '' ''), Lit ''+++'', Plus (Atom CSpace), Star (Atom CAny),
      Plus (Atom CSpace), Lit ''+++''])"

subsection \<open>Events\<close>

text \<open>
  The \<^verbatim>\<open>Args\<close> and \<^verbatim>\<open>Event\<close> structs. \<^verbatim>\<open>Args.Data\<close> and \<^verbatim>\<open>Args.CPU\<close> belong to the
  resource sampler's counter events (a \<^verbatim>\<open>float64\<close> and a map of arbitrary values) and are
  left out; nothing below reads them. \<^verbatim>\<open>main.go\<close> sets a field \<^verbatim>\<open>Scope\<close> that the struct
  declaration of \<^verbatim>\<open>events.go\<close> does not list; it is carried as a string.
\<close>

record Args =
  ArgsName :: string
  Memory :: uint64
  First :: string
  Second :: string
  ReturnValue :: string
  DetachedDur :: go_int

record Event =
  fullTrace :: string
  Name :: string
  Cat :: string
  Ph :: string
  Pid :: go_int
  Tid :: go_int
  Ts :: go_int
  Dur :: go_int
  Id :: uint64
  Scope :: string
  Args :: Args

text \<open>The zero values \<^verbatim>\<open>Args{}\<close> and \<^verbatim>\<open>Event{}\<close>.\<close>

definition zeroArgs :: Args where
  "zeroArgs = \<lparr>ArgsName = [], Memory = 0, First = [], Second = [], ReturnValue = [],
               DetachedDur = 0\<rparr>"

definition zeroEvent :: Event where
  "zeroEvent = \<lparr>fullTrace = [], Name = [], Cat = [], Ph = [], Pid = 0, Tid = 0, Ts = 0,
                Dur = 0, Id = 0, Scope = [], Args = zeroArgs\<rparr>"

subsection \<open>Classification and field extraction (\<^verbatim>\<open>events.go\<close>)\<close>

definition getType :: "Event \<Rightarrow> Event" where
  "getType e =
     (if MatchString regexpFailed (fullTrace e) then e\<lparr>Cat := ''failed''\<rparr>
      else if MatchString regexpSuccessful (fullTrace e) then e\<lparr>Cat := ''successful''\<rparr>
      else if MatchString regexpUnfinished (fullTrace e) then e\<lparr>Cat := ''unfinished''\<rparr>
      else if MatchString regexpDetached (fullTrace e) then e\<lparr>Cat := ''detached''\<rparr>
      else if MatchString regexpExited (fullTrace e) then e\<lparr>Cat := ''lifetime''\<rparr>
      else e\<lparr>Cat := ''other''\<rparr>)"

definition convertID :: "string \<Rightarrow> error + go_int" where
  "convertID s = (case Atoi s of None \<Rightarrow> Inl Fatal | Some i \<Rightarrow> Inr i)"

definition convertTS :: "string \<Rightarrow> error + go_int" where
  "convertTS ts =
     (let s = Split ts CHR ''.''
      in if length s = 1 then Inr 0
         else (case Atoi (s ! 0 @ s ! 1) of None \<Rightarrow> Inl Fatal | Some i \<Rightarrow> Inr i))"

text \<open>
  The capture groups of a pattern on a text, \<^verbatim>\<open>FindStringSubmatch\<close>: element 0 is the whole
  match, element \<open>i\<close> the text of group \<open>i\<close>, and the list is empty when the pattern does
  not match. \<^verbatim>\<open>FindAllStringSubmatch(line, -1)[0]\<close> is the same list for a line that
  matches, and an index out of range for one that does not. The regular expression
  \<^verbatim>\<open>regexpGlobalEvent\<close> is used by \<^verbatim>\<open>main.go\<close> and declared in none of the source files
  at hand.
\<close>

datatype pattern = Successful | Failed | Unfinished | Detached | Exited | Execve | Prctl
  | GlobalEvent

type_synonym submatch = "pattern \<Rightarrow> string \<Rightarrow> string list"

definition firstSubmatch :: "submatch \<Rightarrow> pattern \<Rightarrow> string \<Rightarrow> error + string list" where
  "firstSubmatch G p s = (if G p s = [] then Inl IndexOutOfRange else Inr (G p s))"

definition getReGroups :: "submatch \<Rightarrow> Event \<Rightarrow> error + string list" where
  "getReGroups G e =
     (if Cat e = ''successful'' then firstSubmatch G Successful (fullTrace e)
      else if Cat e = ''failed'' then firstSubmatch G Failed (fullTrace e)
      else if Cat e = ''unfinished'' then firstSubmatch G Unfinished (fullTrace e)
      else if Cat e = ''detached'' then firstSubmatch G Detached (fullTrace e)
      else if Cat e = ''lifetime'' then firstSubmatch G Exited (fullTrace e)
      else Inr [])"

text \<open>
  \<^verbatim>\<open>addFields\<close>. The statements run in the order of the source, so the first failing
  conversion or index decides the error. \<open>addFieldsCat\<close> is its \<^verbatim>\<open>switch e.Cat\<close>.
\<close>

definition addFieldsCat :: "Event \<Rightarrow> string list \<Rightarrow> error + Event" where
  "addFieldsCat e groups =
     (if Cat e = ''successful'' \<or> Cat e = ''failed'' then
        (case index groups 6 of Inl err \<Rightarrow> Inl err | Inr g6 \<Rightarrow>
         case convertTS g6 of Inl err \<Rightarrow> Inl err | Inr dur \<Rightarrow>
         case index groups 4 of Inl err \<Rightarrow> Inl err | Inr g4 \<Rightarrow>
         case index groups 5 of Inl err \<Rightarrow> Inl err | Inr g5 \<Rightarrow>
           Inr (e\<lparr>Ph := ''X'', Dur := dur, Args := (Args e)\<lparr>First := g4, ReturnValue := g5\<rparr>\<rparr>))
      else if Cat e = ''detached'' then
        (case index groups 6 of Inl err \<Rightarrow> Inl err | Inr g6 \<Rightarrow>
         case convertTS g6 of Inl err \<Rightarrow> Inl err | Inr dur \<Rightarrow>
         case index groups 4 of Inl err \<Rightarrow> Inl err | Inr g4 \<Rightarrow>
         case index groups 5 of Inl err \<Rightarrow> Inl err | Inr g5 \<Rightarrow>
           Inr (e\<lparr>Ph := ''X'', Dur := dur, Args := (Args e)\<lparr>Second := g4, ReturnValue := g5\<rparr>\<rparr>))
      else if Cat e = ''unfinished'' then
        (case index groups 4 of Inl err \<Rightarrow> Inl err | Inr g4 \<Rightarrow>
           Inr (e\<lparr>Ph := ''B'', Args := (Args e)\<lparr>First := g4\<rparr>\<rparr>))
      else if Cat e = ''lifetime'' then Inr (e\<lparr>Name := ''lifetime'', Ph := ''E''\<rparr>)
      else Inr e)"

definition addFields :: "submatch \<Rightarrow> Event \<Rightarrow> error + Event" where
  "addFields G e =
     (case getReGroups G e of
        Inl err \<Rightarrow> Inl err
      | Inr groups \<Rightarrow>
          if length groups \<noteq> 0 then
            (case index groups 3 of Inl err \<Rightarrow> Inl err | Inr g3 \<Rightarrow>
             case index groups 2 of Inl err \<Rightarrow> Inl err | Inr g2 \<Rightarrow>
             case convertTS g2 of Inl err \<Rightarrow> Inl err | Inr ts \<Rightarrow>
             case index groups 1 of Inl err \<Rightarrow> Inl err | Inr g1 \<Rightarrow>
             case convertID g1 of Inl err \<Rightarrow> Inl err | Inr pid \<Rightarrow>
             case index groups 4 of Inl err \<Rightarrow> Inl err | Inr g4 \<Rightarrow>
               addFieldsCat
                 (e\<lparr>Name := g3, Ts := ts, Pid := pid, Tid := pid,
                    Args := (Args e)\<lparr>First := g4\<rparr>\<rparr>)
                 groups)
          else Inr e)"

definition NewEvent :: "submatch \<Rightarrow> string \<Rightarrow> error + Event" where
  "NewEvent G content = addFields G (getType (zeroEvent\<lparr>fullTrace := content\<rparr>))"

subsection \<open>Scanning the log (\<^verbatim>\<open>main.go\<close>, the loop over the lines)\<close>

record scan =
  syscallEvents :: "Event list"
  preserved :: "string \<rightharpoonup> Event"      \<comment> \<open>\<^verbatim>\<open>[pid+syscall]*Event\<close>\<close>
  liveThreads :: "go_int \<Rightarrow> bool"        \<comment> \<open>a missing key reads as \<^verbatim>\<open>false\<close>\<close>

definition scan0 :: scan where
  "scan0 = \<lparr>syscallEvents = [], preserved = Map.empty, liveThreads = (\<lambda>_. False)\<rparr>"

definition lifetimeBegin :: "Event \<Rightarrow> Event" where
  "lifetimeBegin e =
     zeroEvent\<lparr>Name := ''lifetime'', Cat := ''lifetime'', Ph := ''B'', Ts := Ts e,
               Pid := Pid e, Tid := Tid e\<rparr>"

definition markAlive :: "scan \<Rightarrow> Event \<Rightarrow> scan" where
  "markAlive st e =
     (if \<not> liveThreads st (Tid e) then
        st\<lparr>syscallEvents := syscallEvents st @ [lifetimeBegin e],
           liveThreads := (liveThreads st)(Tid e := True)\<rparr>
      else st)"

definition preservedKey :: "Event \<Rightarrow> string" where
  "preservedKey e = Itoa (Pid e) @ Name e"

text \<open>
  The \<^verbatim>\<open>switch\<close> of the loop body. In the \<^verbatim>\<open>detached\<close> case \<^verbatim>\<open>p\<close> is a nil pointer when the
  key is missing, and \<^verbatim>\<open>p.Ts\<close> dereferences it.
\<close>

definition scanSwitch :: "scan \<Rightarrow> Event \<Rightarrow> error + scan" where
  "scanSwitch st e =
     (if Cat e = ''unfinished'' then
        Inr (st\<lparr>preserved := (preserved st)(preservedKey e \<mapsto> e)\<rparr>)
      else if Cat e = ''detached'' then
        (case preserved st (preservedKey e) of
           None \<Rightarrow> Inl NilDereference
         | Some p \<Rightarrow>
             Inr (st\<lparr>syscallEvents := syscallEvents st @
                       [e\<lparr>Dur := Ts e - Ts p, Ts := Ts p,
                          Args := (Args e)\<lparr>First := First (Args p)\<rparr>\<rparr>],
                     preserved := (preserved st)(preservedKey e := None)\<rparr>))
      else if Cat e = ''lifetime'' then Inr (st\<lparr>syscallEvents := syscallEvents st @ [e]\<rparr>)
      else if Cat e = ''other'' then Inr st
      else Inr (st\<lparr>syscallEvents := syscallEvents st @ [e]\<rparr>))"

definition scanEvent :: "scan \<Rightarrow> Event \<Rightarrow> error + scan" where
  "scanEvent st e = (if Cat e = ''other'' then Inr st else scanSwitch (markAlive st e) e)"

definition scanLine :: "submatch \<Rightarrow> scan \<Rightarrow> string \<Rightarrow> error + scan" where
  "scanLine G st content =
     (case NewEvent G content of Inl err \<Rightarrow> Inl err | Inr e \<Rightarrow> scanEvent st e)"

fun scanLines :: "submatch \<Rightarrow> scan \<Rightarrow> string list \<Rightarrow> error + scan" where
  "scanLines G st [] = Inr st"
| "scanLines G st (content # rest) =
     (case scanLine G st content of Inl err \<Rightarrow> Inl err | Inr st' \<Rightarrow> scanLines G st' rest)"

text \<open>
  \<^verbatim>\<open>for k, v := range m\<close> visits the keys of a map in an order the Go runtime chooses.
  \<open>ks\<close> is that order: a list of the keys of \<open>m\<close>, each once.
\<close>

definition rangeOver :: "'k list \<Rightarrow> ('k \<rightharpoonup> 'v) \<Rightarrow> ('k \<times> 'v) list" where
  "rangeOver ks m = List.map_filter (\<lambda>k. map_option (Pair k) (m k)) ks"

text \<open>The unfinished calls that were never resumed become instant events.\<close>

definition flushPreserved :: "string list \<Rightarrow> scan \<Rightarrow> Event list" where
  "flushPreserved ks st =
     syscallEvents st @ map (\<lambda>(k, p). p\<lparr>Ph := ''i''\<rparr>) (rangeOver ks (preserved st))"

subsection \<open>The process tree (\<^verbatim>\<open>main.go\<close>, the two loops after the scan)\<close>

definition isCreation :: "Event \<Rightarrow> bool" where
  "isCreation e = (Name e = ''fork'' \<or> HasPrefix (Name e) ''clone'')"

definition setPid :: "(go_int \<rightharpoonup> go_int) \<Rightarrow> Event \<Rightarrow> Event" where
  "setPid processThreads e =
     (case processThreads (Tid e) of Some pid \<Rightarrow> e\<lparr>Pid := pid\<rparr> | None \<Rightarrow> e)"

definition recordChild :: "(go_int \<rightharpoonup> go_int) \<Rightarrow> Event \<Rightarrow> (go_int \<rightharpoonup> go_int)" where
  "recordChild processThreads e =
     (if isCreation e then
        (case Atoi (ReturnValue (Args e)) of
           Some childTid \<Rightarrow>
             if Contains (First (Args e)) ''CLONE_THREAD''
             then processThreads(childTid \<mapsto> Pid e)
             else processThreads(childTid \<mapsto> childTid)
         | None \<Rightarrow> processThreads)
      else processThreads)"

text \<open>One loop over the events; the events are updated in place, the map is shared.\<close>

fun treePass :: "(go_int \<rightharpoonup> go_int) \<Rightarrow> Event list \<Rightarrow> Event list \<times> (go_int \<rightharpoonup> go_int)" where
  "treePass processThreads [] = ([], processThreads)"
| "treePass processThreads (e # es) =
     (let e' = setPid processThreads e;
          (es', processThreads') = treePass (recordChild processThreads e') es
      in (e' # es', processThreads'))"

definition buildProcessTree ::
  "Event list \<Rightarrow> error + Event list \<times> (go_int \<rightharpoonup> go_int)" where
  "buildProcessTree evs =
     (case index evs 0 of
        Inl err \<Rightarrow> Inl err
      | Inr first \<Rightarrow>
          let (evs1, pt1) = treePass [Tid first \<mapsto> Pid first] evs
          in Inr (treePass pt1 evs1))"

subsection \<open>Names, markers and flows (\<^verbatim>\<open>main.go\<close>, the third loop)\<close>

record meta =
  metadataEvents :: "Event list"
  nextFlowId :: uint64
  processNames :: "go_int \<rightharpoonup> string"
  threadNames :: "go_int \<rightharpoonup> string"

definition meta0 :: meta where
  "meta0 = \<lparr>metadataEvents = [], nextFlowId = 0, processNames = Map.empty,
            threadNames = Map.empty\<rparr>"

text \<open>Reading a map of strings: a missing key reads as the empty string.\<close>

definition nameOf :: "(go_int \<rightharpoonup> string) \<Rightarrow> go_int \<Rightarrow> string" where
  "nameOf m k = (case m k of None \<Rightarrow> [] | Some v \<Rightarrow> v)"

definition prctlStep :: "submatch \<Rightarrow> Event \<Rightarrow> meta \<Rightarrow> meta" where
  "prctlStep G e m =
     (if Name e = ''prctl'' \<and> Contains (First (Args e)) ''PR_SET_NAME'' then
        let threadName = First (Args e);
            g = G Prctl threadName;
            threadName = (if length g = 2 then g ! 1 else threadName)
        in m\<lparr>threadNames := (threadNames m)(Tid e \<mapsto> threadName)\<rparr>
      else m)"

definition execveStep :: "submatch \<Rightarrow> Event \<Rightarrow> meta \<Rightarrow> meta" where
  "execveStep G e m =
     (if Name e = ''execve'' then
        let processName = First (Args e);
            g = G Execve processName;
            processName =
              (if length g = 4 then (if g ! 3 = ''...'' then Base (g ! 1) else g ! 2)
               else processName)
        in m\<lparr>processNames := (processNames m)(Pid e \<mapsto> processName),
             threadNames := (threadNames m)(Tid e \<mapsto> processName)\<rparr>
      else m)"

definition writeStep :: "submatch \<Rightarrow> Event \<Rightarrow> meta \<Rightarrow> meta" where
  "writeStep G e m =
     (if Name e = ''write'' then
        let g = G GlobalEvent (First (Args e))
        in if length g = 2 then
             m\<lparr>metadataEvents := metadataEvents m @
                  [zeroEvent\<lparr>Name := TrimSpace (g ! 1), Cat := ''event'', Ph := ''i'',
                             Pid := Pid e, Tid := Tid e, Scope := ''g'', Ts := Ts e\<rparr>]\<rparr>
           else m
      else m)"

definition flowStart :: "uint64 \<Rightarrow> Event \<Rightarrow> Event" where
  "flowStart flowId e =
     zeroEvent\<lparr>Name := Name e, Cat := ''clone'', Ph := ''s'', Pid := Pid e, Tid := Tid e,
               Ts := Ts e + 1, Id := flowId\<rparr>"

definition flowEnd :: "uint64 \<Rightarrow> Event \<Rightarrow> go_int \<Rightarrow> Event" where
  "flowEnd flowId e childTid =
     (if Contains (First (Args e)) ''CLONE_THREAD'' then
        zeroEvent\<lparr>Name := Name e, Cat := ''clone'', Ph := ''f'', Pid := Pid e, Tid := childTid,
                  Ts := Ts e + 1, Id := flowId\<rparr>
      else
        zeroEvent\<lparr>Name := Name e, Cat := ''clone'', Ph := ''f'', Pid := childTid,
                  Tid := childTid, Ts := Ts e + 1, Id := flowId\<rparr>)"

definition cloneStep :: "Event \<Rightarrow> meta \<Rightarrow> meta" where
  "cloneStep e m =
     (if isCreation e then
        (case Atoi (ReturnValue (Args e)) of
           None \<Rightarrow> m
         | Some childTid \<Rightarrow>
             let m1 = m\<lparr>metadataEvents := metadataEvents m @ [flowStart (nextFlowId m) e],
                        threadNames := (threadNames m)(childTid \<mapsto> nameOf (threadNames m) (Tid e))\<rparr>;
                 m2 = m1\<lparr>metadataEvents := metadataEvents m1 @ [flowEnd (nextFlowId m) e childTid]\<rparr>;
                 m3 = (if Contains (First (Args e)) ''CLONE_THREAD'' then m2
                       else m2\<lparr>processNames :=
                                 (processNames m2)(childTid \<mapsto> nameOf (processNames m2) (Pid e))\<rparr>)
             in m3\<lparr>nextFlowId := nextFlowId m3 + 1\<rparr>)
      else m)"

fun metaPass ::
  "submatch \<Rightarrow> (go_int \<rightharpoonup> go_int) \<Rightarrow> meta \<Rightarrow> Event list \<Rightarrow> Event list \<times> meta" where
  "metaPass G processThreads m [] = ([], m)"
| "metaPass G processThreads m (e # es) =
     (let e' = setPid processThreads e;
          m' = cloneStep e' (writeStep G e' (execveStep G e' (prctlStep G e' m)));
          (es', m'') = metaPass G processThreads m' es
      in (e' # es', m''))"

definition processNameEvent :: "go_int \<times> string \<Rightarrow> Event" where
  "processNameEvent = (\<lambda>(pid, name).
     zeroEvent\<lparr>Name := ''process_name'', Ph := ''M'', Pid := pid, Tid := pid,
               Cat := ''__metadata'', Args := zeroArgs\<lparr>ArgsName := name\<rparr>\<rparr>)"

definition threadNameEvent :: "(go_int \<rightharpoonup> go_int) \<Rightarrow> go_int \<times> string \<Rightarrow> Event" where
  "threadNameEvent processThreads = (\<lambda>(tid, name).
     zeroEvent\<lparr>Name := ''thread_name'', Ph := ''M'', Tid := tid,
               Pid := (case processThreads tid of None \<Rightarrow> 0 | Some pid \<Rightarrow> pid),
               Cat := ''__metadata'', Args := zeroArgs\<lparr>ArgsName := name\<rparr>\<rparr>)"

subsection \<open>The chronological merge (\<^verbatim>\<open>events.go\<close>)\<close>

text \<open>The first loop of \<^verbatim>\<open>merge\<close>: drop the empty lists, add up the lengths.\<close>

function skipEmpty :: "nat \<Rightarrow> nat \<Rightarrow> Event list list \<Rightarrow> nat \<times> Event list list" where
  "skipEmpty l i events =
     (if i < length events then
        (if length (events ! i) = 0 then skipEmpty l i (take i events @ drop (i + 1) events)
         else skipEmpty (l + length (events ! i)) (i + 1) events)
      else (l, events))"
  by pat_completeness auto
termination
  by (relation "measure (\<lambda>(l, i, events). length events - i)") auto

declare skipEmpty.simps [simp del]

text \<open>
  The inner loop \<^verbatim>\<open>for i, e := range events[1:]\<close>. \<^verbatim>\<open>Ts\<close> is an \<^verbatim>\<open>int\<close>, so the comparison
  is the signed one.
\<close>

fun pickFirst :: "Event \<Rightarrow> nat \<Rightarrow> nat \<Rightarrow> Event list list \<Rightarrow> error + nat" where
  "pickFirst firstEvent eventIndex i [] = Inr eventIndex"
| "pickFirst firstEvent eventIndex i (e # es) =
     (case index e 0 of
        Inl err \<Rightarrow> Inl err
      | Inr e0 \<Rightarrow>
          if Ts firstEvent \<le>s Ts e0 then pickFirst firstEvent eventIndex (i + 1) es
          else pickFirst e0 (i + 1) (i + 1) es)"

lemma sum_length_remove:
  assumes "k < length xs"
  shows "sum_list (map length (take k xs @ drop (Suc k) xs)) + length (xs ! k)
           = sum_list (map length xs)"
proof -
  have "sum_list (map length xs)
          = sum_list (map length (take k xs @ xs ! k # drop (Suc k) xs))"
    using assms by (simp only: id_take_nth_drop [symmetric])
  then show ?thesis by simp
qed

lemma sum_length_update:
  assumes "k < length xs"
  shows "sum_list (map length (xs[k := y])) + length (xs ! k)
           = sum_list (map length xs) + length y"
proof -
  have "sum_list (map length xs)
          = sum_list (map length (take k xs @ xs ! k # drop (Suc k) xs))"
    using assms by (simp only: id_take_nth_drop [symmetric])
  moreover have "xs[k := y] = take k xs @ y # drop (Suc k) xs"
    using assms by (rule upd_conv_take_nth_drop)
  ultimately show ?thesis by simp
qed

function mergeLoop :: "Event list list \<Rightarrow> Event list \<Rightarrow> error + Event list" where
  "mergeLoop events merged =
     (if length events > 0 then
        (case index events 0 of Inl err \<Rightarrow> Inl err | Inr l0 \<Rightarrow>
         case index l0 0 of Inl err \<Rightarrow> Inl err | Inr firstEvent \<Rightarrow>
         case pickFirst firstEvent 0 0 (drop 1 events) of Inl err \<Rightarrow> Inl err | Inr eventIndex \<Rightarrow>
         case index events eventIndex of Inl err \<Rightarrow> Inl err | Inr le \<Rightarrow>
         case index le 0 of Inl err \<Rightarrow> Inl err | Inr x \<Rightarrow>
           if length le = 1
           then mergeLoop (take eventIndex events @ drop (eventIndex + 1) events) (merged @ [x])
           else mergeLoop (events[eventIndex := drop 1 le]) (merged @ [x]))
      else Inr merged)"
  by pat_completeness auto
termination
proof (relation "measure (\<lambda>(events, merged). sum_list (map length events))", goal_cases)
  case 1
  then show ?case by simp
next
  case (2 events merged l0 firstEvent eventIndex le x)
  then have "eventIndex < length events" "le = events ! eventIndex"
    by (auto simp: index_def split: if_splits)
  with 2 sum_length_remove [of eventIndex events] show ?case by simp
next
  case (3 events merged l0 firstEvent eventIndex le x)
  then have k: "eventIndex < length events" "le = events ! eventIndex" "le \<noteq> []"
    by (auto simp: index_def split: if_splits)
  then have "0 < length le"
    by simp
  moreover have "sum_list (map length (events[eventIndex := drop 1 le])) + length le
                   = sum_list (map length events) + (length le - 1)"
    using k sum_length_update [of eventIndex events "drop 1 le"] by simp
  ultimately have "sum_list (map length (events[eventIndex := drop 1 le]))
                     < sum_list (map length events)"
    by linarith
  then show ?case by simp
qed

declare mergeLoop.simps [simp del]

definition merge :: "Event list list \<Rightarrow> error + Event list" where
  "merge events =
     (if length events = 0 then Inr []
      else let (l, events') = skipEmpty 0 0 events in mergeLoop events' [])"

subsection \<open>The whole run\<close>

text \<open>
  What \<^verbatim>\<open>main\<close> does with the lines of the log, up to the list it hands to \<^verbatim>\<open>Save\<close>. The
  environment holds what the program does not decide: the capture groups, the orders in
  which the three maps are ranged over, and the events of the resource monitor.
\<close>

record env =
  submatches :: submatch
  preservedOrder :: "string list"
  processNamesOrder :: "go_int list"
  threadNamesOrder :: "go_int list"
  resourceMonitorEvents :: "Event list"

definition mainEvents :: "env \<Rightarrow> string list \<Rightarrow> error + Event list" where
  "mainEvents env content =
     (case scanLines (submatches env) scan0 content of
        Inl err \<Rightarrow> Inl err
      | Inr st \<Rightarrow>
          (case buildProcessTree (flushPreserved (preservedOrder env) st) of
             Inl err \<Rightarrow> Inl err
           | Inr (evs, processThreads) \<Rightarrow>
               let (evs', m) = metaPass (submatches env) processThreads meta0 evs;
                   names = map processNameEvent (rangeOver (processNamesOrder env) (processNames m))
                     @ map (threadNameEvent processThreads)
                         (rangeOver (threadNamesOrder env) (threadNames m))
               in merge [metadataEvents m @ names, evs', resourceMonitorEvents env]))"

subsection \<open>Serialization (\<^verbatim>\<open>encoding/json\<close> on the struct tags of \<^verbatim>\<open>events.go\<close>)\<close>

datatype json = JString string | JInt int | JUint nat | JObject "(string \<times> json) list"

text \<open>A field tagged \<^verbatim>\<open>omitempty\<close> is left out when it holds the zero value of its type.\<close>

definition omitempty :: "bool \<Rightarrow> string \<Rightarrow> json \<Rightarrow> (string \<times> json) list" where
  "omitempty isZero key v = (if isZero then [] else [(key, v)])"

definition marshalArgs :: "Args \<Rightarrow> json" where
  "marshalArgs a = JObject (
     omitempty (ArgsName a = []) ''name'' (JString (ArgsName a)) @
     omitempty (Memory a = 0) ''memory'' (JUint (unat (Memory a))) @
     omitempty (First a = []) ''first'' (JString (First a)) @
     omitempty (Second a = []) ''second'' (JString (Second a)) @
     omitempty (ReturnValue a = []) ''returnValue'' (JString (ReturnValue a)) @
     omitempty (DetachedDur a = 0) ''detachedDur'' (JInt (sint (DetachedDur a))))"

definition marshalEvent :: "Event \<Rightarrow> (string \<times> json) list" where
  "marshalEvent e =
     [(''name'', JString (Name e)), (''cat'', JString (Cat e)), (''ph'', JString (Ph e)),
      (''pid'', JInt (sint (Pid e))), (''tid'', JInt (sint (Tid e))),
      (''ts'', JInt (sint (Ts e)))] @
     omitempty (Dur e = 0) ''dur'' (JInt (sint (Dur e))) @
     omitempty (Id e = 0) ''id'' (JUint (unat (Id e))) @
     [(''args'', marshalArgs (Args e))]"

subsection \<open>Auxiliary notions for the statements\<close>

text \<open>The timestamp of an event as an integer, the key of the merge.\<close>

definition key :: "Event \<Rightarrow> int" where
  "key e = sint (Ts e)"

text \<open>
  What one round of the main loop of \<^verbatim>\<open>merge\<close> leaves of the lists once the head of list
  \<open>k\<close> has been taken: a list of one element disappears, a longer one loses its head.
\<close>

definition popHead :: "nat \<Rightarrow> Event list list \<Rightarrow> Event list list" where
  "popHead k events =
     (if length (events ! k) = 1 then take k events @ drop (Suc k) events
      else events[k := tl (events ! k)])"

text \<open>
  The language of a pattern, as the reference for \<open>MatchString\<close>: the texts the pattern
  matches as a whole.
\<close>

inductive_set star :: "string set \<Rightarrow> string set" for L :: "string set" where
  star_empty: "[] \<in> star L"
| star_append: "u \<in> L \<Longrightarrow> v \<in> star L \<Longrightarrow> u @ v \<in> star L"

fun lang :: "rx \<Rightarrow> string set" where
  "lang Eps = {[]}"
| "lang (Atom a) = {[c] | c. cmatch a c}"
| "lang (Seq r s) = {u @ v | u v. u \<in> lang r \<and> v \<in> lang s}"
| "lang (Alt r s) = lang r \<union> lang s"
| "lang (Star r) = star (lang r)"

text \<open>A creation call that returned the id of its child.\<close>

definition createsChild :: "Event \<Rightarrow> bool" where
  "createsChild e = (isCreation e \<and> Atoi (ReturnValue (Args e)) \<noteq> None)"

definition childOf :: "Event \<Rightarrow> go_int" where
  "childOf e = (case Atoi (ReturnValue (Args e)) of Some childTid \<Rightarrow> childTid | None \<Rightarrow> 0)"

text \<open>The flow events of a list of such calls, numbered from \<open>n\<close>.\<close>

fun flowPairs :: "uint64 \<Rightarrow> Event list \<Rightarrow> Event list" where
  "flowPairs n [] = []"
| "flowPairs n (e # es) = flowStart n e # flowEnd n e (childOf e) # flowPairs (n + 1) es"

definition isFlow :: "Event \<Rightarrow> bool" where
  "isFlow e = (Cat e = ''clone'')"

text \<open>
  The creation calls of a list that returned a child, with the process ids the third loop
  gives them, and the flow events that loop synthesizes.
\<close>

definition creationCalls :: "(go_int \<rightharpoonup> go_int) \<Rightarrow> Event list \<Rightarrow> Event list" where
  "creationCalls pt evs = filter createsChild (map (setPid pt) evs)"

definition flowEvents :: "submatch \<Rightarrow> (go_int \<rightharpoonup> go_int) \<Rightarrow> Event list \<Rightarrow> Event list" where
  "flowEvents G pt evs = filter isFlow (metadataEvents (snd (metaPass G pt meta0 evs)))"

subsection \<open>Example inputs\<close>

text \<open>Capture groups given by a table from the text to its groups.\<close>

definition tableGroups :: "(string \<times> string list) list \<Rightarrow> submatch" where
  "tableGroups table p s = (case map_of table s of None \<Rightarrow> [] | Some g \<Rightarrow> g)"

definition envOf :: "(string \<times> string list) list \<Rightarrow> env" where
  "envOf table = \<lparr>submatches = tableGroups table, preservedOrder = [], processNamesOrder = [],
                  threadNamesOrder = [], resourceMonitorEvents = []\<rparr>"

definition tsEvent :: "go_int \<Rightarrow> string \<Rightarrow> Event" where
  "tsEvent t n = zeroEvent\<lparr>Name := n, Ts := t\<rparr>"

definition listA :: "Event list" where
  "listA = [tsEvent 0 ''a0'', tsEvent 5 ''a5'']"

definition listB :: "Event list" where
  "listB = [tsEvent 0 ''b0'', tsEvent 3 ''b3'']"

text \<open>Three lists whose heads have the same timestamp.\<close>

definition listM :: "Event list" where
  "listM = [tsEvent 7 ''m'']"

definition listS :: "Event list" where
  "listS = [tsEvent 7 ''s'']"

definition listR :: "Event list" where
  "listR = [tsEvent 7 ''r'']"

definition lineNoDot :: string where
  "lineNoDot = ''1 0.1 f() = 0 <abc>''"

definition envNoDot :: env where
  "envNoDot = envOf [(lineNoDot, [lineNoDot, ''1'', ''0.1'', ''f'', ''()'', ''0'', ''abc''])]"

definition lineBadDur :: string where
  "lineBadDur = ''1 0.1 f() = 0 <a.b>''"

definition envBadDur :: env where
  "envBadDur = envOf [(lineBadDur, [lineBadDur, ''1'', ''0.1'', ''f'', ''()'', ''0'', ''a.b''])]"

definition lineFailedCall :: string where
  "lineFailedCall = ''1 0.1 f() = -1 <0.1>''"

definition lineUnfinished :: string where
  "lineUnfinished = ''1 0.1 f(a <unfinished ...>''"

definition lineResumed :: string where
  "lineResumed = ''1 0.3 <... f resumed>) = 0 <0.1>''"

definition envPair :: env where
  "envPair = envOf [(lineUnfinished, [lineUnfinished, ''1'', ''0.1'', ''f'', ''(a '']),
                    (lineResumed, [lineResumed, ''1'', ''0.3'', ''f'', '')'', ''0'', ''0.1''])]"


definition eventResumed :: Event where
  "eventResumed =
     zeroEvent\<lparr>fullTrace := lineResumed, Name := ''f'', Cat := ''detached'', Ph := ''X'',
               Pid := 1, Tid := 1, Ts := 3, Dur := 1,
               Args := zeroArgs\<lparr>First := '')'', Second := '')'', ReturnValue := ''0''\<rparr>\<rparr>"

definition forkA :: Event where
  "forkA = zeroEvent\<lparr>Name := ''fork'', Cat := ''successful'', Ph := ''X'', Pid := 100, Tid := 100,
                     Ts := 20, Dur := 3, Args := zeroArgs\<lparr>First := ''()'', ReturnValue := ''102''\<rparr>\<rparr>"

definition failedClone :: Event where
  "failedClone = zeroEvent\<lparr>Name := ''clone'', Cat := ''failed'', Ph := ''X'', Pid := 100, Tid := 100,
                     Ts := 30, Dur := 3,
                     Args := zeroArgs\<lparr>First := ''(CLONE_THREAD)'', ReturnValue := ''-1 EAGAIN (x)''\<rparr>\<rparr>"

text \<open>
  Process 100 creates thread 101; the first event of 101 is in the list before the
  creation call of 100, whose line was written at its return.
\<close>

definition lifeA :: Event where
  "lifeA = zeroEvent\<lparr>Name := ''lifetime'', Cat := ''lifetime'', Ph := ''B'', Pid := 100, Tid := 100,
                     Ts := 1\<rparr>"

definition lifeT :: Event where
  "lifeT = zeroEvent\<lparr>Name := ''lifetime'', Cat := ''lifetime'', Ph := ''B'', Pid := 101, Tid := 101,
                     Ts := 5\<rparr>"

definition writeT :: Event where
  "writeT = zeroEvent\<lparr>Name := ''write'', Cat := ''successful'', Ph := ''X'', Pid := 101, Tid := 101,
                      Ts := 5, Dur := 2,
                      Args := zeroArgs\<lparr>First := ''(1, x, 1)'', ReturnValue := ''1''\<rparr>\<rparr>"

definition cloneA :: Event where
  "cloneA = zeroEvent\<lparr>Name := ''clone'', Cat := ''detached'', Ph := ''X'', Pid := 100, Tid := 100,
                      Ts := 1, Dur := 9,
                      Args := zeroArgs\<lparr>First := ''(CLONE_THREAD'', Second := '')'',
                                       ReturnValue := ''101''\<rparr>\<rparr>"

definition threadLog :: "Event list" where
  "threadLog = [lifeA, lifeT, writeT, cloneA]"

section \<open>Properties\<close>

lemmas rx_eval = MatchString_def regexpSuccessful_def regexpFailed_def regexpUnfinished_def
  regexpDetached_def regexpExited_def rePidTs_def Plus_def isDigit_def

subsection \<open>The merge\<close>

lemma sle_key: "(Ts a \<le>s Ts b) = (key a \<le> key b)"
  by (simp add: key_def word_sle_eq)

lemma skipEmpty_eq:
  "skipEmpty l i events =
     (l + sum_list (map length (drop i events)), take i events @ filter (\<lambda>l. l \<noteq> []) (drop i events))"
proof (induction l i events rule: skipEmpty.induct)
  case (1 l i events)
  show ?case
  proof (cases "i < length events")
    case False
    then show ?thesis by (subst skipEmpty.simps) simp
  next
    case True
    note i = this
    have d: "drop i events = events ! i # drop (Suc i) events"
      using i by (simp add: Cons_nth_drop_Suc)
    show ?thesis
    proof (cases "length (events ! i) = 0")
      case True
      have t: "take i (take i events @ drop (Suc i) events) = take i events"
        using i by simp
      have dd: "drop i (take i events @ drop (Suc i) events) = drop (Suc i) events"
        using i by simp
      show ?thesis
        using i True "1.IH"(1) [OF i True] by (subst skipEmpty.simps) (simp add: t dd d)
    next
      case False
      have t: "take (Suc i) events = take i events @ [events ! i]"
        using i by (simp add: take_Suc_conv_app_nth)
      show ?thesis
        using i False "1.IH"(2) [OF i False] by (subst skipEmpty.simps) (simp add: t d)
    qed
  qed
qed

lemma pickFirst_spec:
  assumes "\<forall>l\<in>set es. l \<noteq> []" "idx \<le> i"
  shows "\<exists>k f. pickFirst fe idx i es = Inr k
           \<and> (k = idx \<and> f = fe \<or> i < k \<and> k \<le> i + length es \<and> f = hd (es ! (k - Suc i)))
           \<and> key f \<le> key fe \<and> (k \<noteq> idx \<longrightarrow> key f < key fe)
           \<and> (\<forall>j<length es. key f \<le> key (hd (es ! j)))
           \<and> (\<forall>j<length es. Suc (i + j) < k \<longrightarrow> key f < key (hd (es ! j)))"
  using assms
proof (induction es arbitrary: fe idx i)
  case Nil
  then show ?case by simp
next
  case (Cons e es)
  then obtain e0 e' where e: "e = e0 # e'"
    by (cases e) auto
  have ne: "\<forall>l\<in>set es. l \<noteq> []" using Cons.prems by simp
  show ?case
  proof (cases "key fe \<le> key e0")
    case True
    from Cons.IH [OF ne, of idx "Suc i" fe] Cons.prems(2)
    obtain k f where kf: "pickFirst fe idx (Suc i) es = Inr k"
      "k = idx \<and> f = fe \<or> Suc i < k \<and> k \<le> Suc i + length es \<and> f = hd (es ! (k - Suc (Suc i)))"
      "key f \<le> key fe" "k \<noteq> idx \<longrightarrow> key f < key fe"
      "\<forall>j<length es. key f \<le> key (hd (es ! j))"
      "\<forall>j<length es. Suc (Suc i + j) < k \<longrightarrow> key f < key (hd (es ! j))"
      by auto
    have p: "pickFirst fe idx i (e # es) = Inr k"
      using True kf(1) by (simp add: e index_def sle_key)
    have sel: "k = idx \<and> f = fe \<or> i < k \<and> k \<le> i + length (e # es) \<and> f = hd ((e # es) ! (k - Suc i))"
    proof (cases "k = idx \<and> f = fe")
      case True
      then show ?thesis by simp
    next
      case False
      with kf(2) have h: "Suc i < k" "k \<le> Suc i + length es" "f = hd (es ! (k - Suc (Suc i)))"
        by auto
      then have "k - Suc i = Suc (k - Suc (Suc i))" by simp
      then have "(e # es) ! (k - Suc i) = es ! (k - Suc (Suc i))" by simp
      with h show ?thesis by simp
    qed
    have le: "\<forall>j<length (e # es). key f \<le> key (hd ((e # es) ! j))"
    proof (intro allI impI)
      fix j assume "j < length (e # es)"
      then show "key f \<le> key (hd ((e # es) ! j))"
        using kf(3,5) True by (cases j) (auto simp: e)
    qed
    have lt: "\<forall>j<length (e # es). Suc (i + j) < k \<longrightarrow> key f < key (hd ((e # es) ! j))"
    proof (intro allI impI)
      fix j assume j: "j < length (e # es)" "Suc (i + j) < k"
      show "key f < key (hd ((e # es) ! j))"
      proof (cases j)
        case 0
        with j Cons.prems(2) have "k \<noteq> idx" by simp
        with kf(4) True 0 show ?thesis by (simp add: e)
      next
        case (Suc j')
        with j kf(6) show ?thesis by simp
      qed
    qed
    from p sel kf(3,4) le lt show ?thesis by blast
  next
    case False
    from Cons.IH [OF ne, of "Suc i" "Suc i" e0]
    obtain k f where kf: "pickFirst e0 (Suc i) (Suc i) es = Inr k"
      "k = Suc i \<and> f = e0 \<or> Suc i < k \<and> k \<le> Suc i + length es \<and> f = hd (es ! (k - Suc (Suc i)))"
      "key f \<le> key e0" "k \<noteq> Suc i \<longrightarrow> key f < key e0"
      "\<forall>j<length es. key f \<le> key (hd (es ! j))"
      "\<forall>j<length es. Suc (Suc i + j) < k \<longrightarrow> key f < key (hd (es ! j))"
      by auto
    have p: "pickFirst fe idx i (e # es) = Inr k"
      using False kf(1) by (simp add: e index_def sle_key)
    have ki: "i < k" "k \<noteq> idx" using kf(2) Cons.prems(2) by auto
    have sel: "i < k \<and> k \<le> i + length (e # es) \<and> f = hd ((e # es) ! (k - Suc i))"
    proof (cases "k = Suc i \<and> f = e0")
      case True
      then show ?thesis by (simp add: e)
    next
      case False
      with kf(2) have h: "Suc i < k" "k \<le> Suc i + length es" "f = hd (es ! (k - Suc (Suc i)))"
        by auto
      then have "k - Suc i = Suc (k - Suc (Suc i))" by simp
      then have "(e # es) ! (k - Suc i) = es ! (k - Suc (Suc i))" by simp
      with h show ?thesis by simp
    qed
    have fl: "key f < key fe" using kf(3) False by simp
    have le: "\<forall>j<length (e # es). key f \<le> key (hd ((e # es) ! j))"
    proof (intro allI impI)
      fix j assume "j < length (e # es)"
      then show "key f \<le> key (hd ((e # es) ! j))"
        using kf(3,5) by (cases j) (auto simp: e)
    qed
    have lt: "\<forall>j<length (e # es). Suc (i + j) < k \<longrightarrow> key f < key (hd ((e # es) ! j))"
    proof (intro allI impI)
      fix j assume j: "j < length (e # es)" "Suc (i + j) < k"
      show "key f < key (hd ((e # es) ! j))"
      proof (cases j)
        case 0
        with j have "k \<noteq> Suc i" by simp
        with kf(4) 0 show ?thesis by (simp add: e)
      next
        case (Suc j')
        with j kf(6) show ?thesis by simp
      qed
    qed
    from p sel fl ki le lt show ?thesis by force
  qed
qed

lemma mergeLoop_Nil: "mergeLoop [] merged = Inr merged"
  by (subst mergeLoop.simps) simp

lemma mergeLoop_step:
  assumes ne: "\<forall>l\<in>set events. l \<noteq> []" and nn: "events \<noteq> []"
  shows "\<exists>k<length events.
           (\<forall>j<length events. key (hd (events ! k)) \<le> key (hd (events ! j)))
           \<and> (\<forall>j<k. key (hd (events ! k)) < key (hd (events ! j)))
           \<and> mergeLoop events merged = mergeLoop (popHead k events) (merged @ [hd (events ! k)])"
proof -
  obtain l0 rest where ev: "events = l0 # rest"
    using nn by (cases events) auto
  with ne obtain x0 l0' where l0: "l0 = x0 # l0'"
    by (cases l0) auto
  have "\<forall>l\<in>set rest. l \<noteq> []" using ne ev by simp
  from pickFirst_spec [OF this, of 0 0 x0]
  obtain k f where kf: "pickFirst x0 0 0 rest = Inr k"
      "k = 0 \<and> f = x0 \<or> 0 < k \<and> k \<le> length rest \<and> f = hd (rest ! (k - Suc 0))"
      "key f \<le> key x0" "k \<noteq> 0 \<longrightarrow> key f < key x0"
      "\<forall>j<length rest. key f \<le> key (hd (rest ! j))"
      "\<forall>j<length rest. Suc j < k \<longrightarrow> key f < key (hd (rest ! j))"
    by auto
  have klen: "k < length events" using kf(2) ev by auto
  have fk: "hd (events ! k) = f"
    using kf(2) ev l0 by (cases k) auto
  have nek: "events ! k \<noteq> []" using ne klen by simp
  then obtain x xs where xk: "events ! k = x # xs"
    by (cases "events ! k") auto
  have le: "\<forall>j<length events. key f \<le> key (hd (events ! j))"
  proof (intro allI impI)
    fix j assume "j < length events"
    then show "key f \<le> key (hd (events ! j))"
      using kf(3,5) ev l0 by (cases j) auto
  qed
  have lt: "\<forall>j<k. key f < key (hd (events ! j))"
  proof (intro allI impI)
    fix j assume j: "j < k"
    show "key f < key (hd (events ! j))"
    proof (cases j)
      case 0
      with j kf(4) ev l0 show ?thesis by simp
    next
      case (Suc j')
      with j klen ev have "j' < length rest" "Suc j' < k" by simp_all
      with kf(6) Suc ev show ?thesis by simp
    qed
  qed
  have "mergeLoop events merged = mergeLoop (popHead k events) (merged @ [hd (events ! k)])"
    using klen kf(1) xk
    by (subst mergeLoop.simps) (simp add: ev l0 index_def popHead_def)
  with klen le lt fk show ?thesis by auto
qed


lemma popHead_decomp:
  assumes "k < length events" "events ! k = x # xs"
  shows "events = take k events @ (x # xs) # drop (Suc k) events"
    and "popHead k events = take k events @ (if xs = [] then [] else [xs]) @ drop (Suc k) events"
proof -
  show "events = take k events @ (x # xs) # drop (Suc k) events"
    using assms id_take_nth_drop [of k events] by simp
  show "popHead k events = take k events @ (if xs = [] then [] else [xs]) @ drop (Suc k) events"
    using assms by (simp add: popHead_def upd_conv_take_nth_drop)
qed

lemma sorted_hd_le:
  assumes "sorted (map key l)" "y \<in> set l"
  shows "key (hd l) \<le> key y"
  using assms by (cases l) auto

lemma mergeLoop_correct:
  assumes "\<forall>l\<in>set events. l \<noteq> []"
  shows "\<exists>r. mergeLoop events merged = Inr r
           \<and> mset r = mset merged + mset (concat events)
           \<and> ((\<forall>l\<in>set events. sorted (map key l)) \<and> sorted (map key merged)
                \<and> (\<forall>a\<in>set merged. \<forall>l\<in>set events. \<forall>y\<in>set l. key a \<le> key y)
               \<longrightarrow> sorted (map key r))"
  using assms
proof (induction "sum_list (map length events)" arbitrary: events merged rule: less_induct)
  case less
  show ?case
  proof (cases "events = []")
    case True
    then show ?thesis by (simp add: mergeLoop_Nil)
  next
    case False
    from mergeLoop_step [OF less.prems False, of merged]
    obtain k where k: "k < length events"
      and kmin: "\<forall>j<length events. key (hd (events ! k)) \<le> key (hd (events ! j))"
      and step: "mergeLoop events merged = mergeLoop (popHead k events) (merged @ [hd (events ! k)])"
      by blast
    from k less.prems have "events ! k \<noteq> []" by simp
    then obtain x xs where xk: "events ! k = x # xs"
      by (cases "events ! k") auto
    define A where "A = take k events"
    define B where "B = drop (Suc k) events"
    have ev: "events = A @ (x # xs) # B"
      and pop: "popHead k events = A @ (if xs = [] then [] else [xs]) @ B"
      using popHead_decomp [OF k xk] by (simp_all add: A_def B_def)
    have ne': "\<forall>l\<in>set (popHead k events). l \<noteq> []"
      using less.prems by (subst pop, subst (asm) ev) auto
    have dec: "sum_list (map length (popHead k events)) < sum_list (map length events)"
      by (subst pop, subst ev) simp
    from less.hyps [OF dec ne', of "merged @ [x]"]
    obtain r where r: "mergeLoop (popHead k events) (merged @ [x]) = Inr r"
      and ms: "mset r = mset (merged @ [x]) + mset (concat (popHead k events))"
      and so: "(\<forall>l\<in>set (popHead k events). sorted (map key l)) \<and> sorted (map key (merged @ [x]))
                \<and> (\<forall>a\<in>set (merged @ [x]). \<forall>l\<in>set (popHead k events). \<forall>y\<in>set l. key a \<le> key y)
               \<Longrightarrow> sorted (map key r)"
      by blast
    have r1: "mergeLoop events merged = Inr r"
      using step r xk by simp
    have r2: "mset r = mset merged + mset (concat events)"
      using ms by (subst ev, simp add: pop)
    have r3: "sorted (map key r)"
      if h: "(\<forall>l\<in>set events. sorted (map key l)) \<and> sorted (map key merged)
                \<and> (\<forall>a\<in>set merged. \<forall>l\<in>set events. \<forall>y\<in>set l. key a \<le> key y)"
    proof (rule so, intro conjI)
      have sub: "\<And>l. l \<in> set (popHead k events) \<Longrightarrow> l \<in> set events \<or> l = xs"
        by (subst (asm) pop, subst ev) (auto split: if_splits)
      have xsl: "x # xs \<in> set events" by (subst ev) simp
      then have sx: "sorted (map key (x # xs))" using h by blast
      show "\<forall>l\<in>set (popHead k events). sorted (map key l)"
        using sub h sx by auto
      have mx: "\<forall>a\<in>set merged. key a \<le> key x"
        using h xsl by auto
      show "sorted (map key (merged @ [x]))"
        using h mx by (simp add: sorted_append)
      have xmin: "key x \<le> key y" if "l \<in> set events" "y \<in> set l" for l y
      proof -
        from that(1) obtain j where "j < length events" "events ! j = l"
          by (auto simp: in_set_conv_nth)
        with kmin xk have "key x \<le> key (hd l)" by auto
        moreover have "key (hd l) \<le> key y"
          using h that by (intro sorted_hd_le) auto
        ultimately show ?thesis by simp
      qed
      have inl: "\<And>l y. l \<in> set (popHead k events) \<Longrightarrow> y \<in> set l \<Longrightarrow> \<exists>l'\<in>set events. y \<in> set l'"
        using sub xsl by (metis list.set_intros(2))
      show "\<forall>a\<in>set (merged @ [x]). \<forall>l\<in>set (popHead k events). \<forall>y\<in>set l. key a \<le> key y"
      proof (intro ballI)
        fix a l y assume a: "a \<in> set (merged @ [x])" and l: "l \<in> set (popHead k events)" and y: "y \<in> set l"
        from inl [OF l y] obtain l' where l': "l' \<in> set events" "y \<in> set l'" by blast
        show "key a \<le> key y"
        proof (cases "a = x")
          case True
          with xmin [OF l'] show ?thesis by simp
        next
          case False
          with a have "a \<in> set merged" by simp
          with h l' show ?thesis by blast
        qed
      qed
    qed
    from r1 r2 r3 show ?thesis by blast
  qed
qed

lemma merge_correct:
  "\<exists>r. merge events = Inr r \<and> mset r = mset (concat events)
      \<and> length r = sum_list (map length events)
      \<and> ((\<forall>l\<in>set events. sorted (map key l)) \<longrightarrow> sorted (map key r))"
proof (cases "events = []")
  case True
  then show ?thesis by (simp add: merge_def)
next
  case False
  let ?ev = "filter (\<lambda>l. l \<noteq> []) events"
  have m: "merge events = mergeLoop ?ev []"
    using False by (simp add: merge_def skipEmpty_eq)
  have "\<forall>l\<in>set ?ev. l \<noteq> []" by simp
  from mergeLoop_correct [OF this, of "[]"]
  obtain r where r: "mergeLoop ?ev [] = Inr r" "mset r = mset (concat ?ev)"
    "(\<forall>l\<in>set ?ev. sorted (map key l)) \<longrightarrow> sorted (map key r)"
    by auto
  have c: "mset (concat ?ev) = mset (concat events)"
    by (induction events) auto
  have "length r = size (mset r)" by simp
  also have "\<dots> = length (concat events)" using r(2) c by (metis size_mset)
  finally have "length r = sum_list (map length events)" by (simp add: length_concat)
  with m r c show ?thesis by auto
qed

lemma merge_skips_empty: "merge events = merge (filter (\<lambda>l. l \<noteq> []) events)"
proof (cases "filter (\<lambda>l. l \<noteq> []) events = []")
  case True
  then show ?thesis
    by (cases "events = []") (simp_all add: merge_def skipEmpty_eq mergeLoop_Nil)
next
  case False
  then have "events \<noteq> []" by auto
  with False show ?thesis by (simp add: merge_def skipEmpty_eq)
qed

lemma sorted_key: "sorted (map key l) = sorted_wrt (\<lambda>a b. Ts a \<le>s Ts b) l"
  by (simp add: sorted_map sle_key)

lemma merge_eq_mergeLoop: "merge events = mergeLoop (filter (\<lambda>l. l \<noteq> []) events) []"
  by (cases "events = []") (simp_all add: merge_def skipEmpty_eq mergeLoop_Nil)

lemma insort_key_least:
  assumes "sorted (map f zs)" "\<forall>z\<in>set zs. f x \<le> f z"
  shows "insort_key f x zs = x # zs"
  using assms by (cases zs) auto

lemma sort_key_least:
  assumes "\<forall>y\<in>set ys. f x < f y" "\<forall>z\<in>set zs. f x \<le> f z"
  shows "sort_key f (ys @ x # zs) = x # sort_key f (ys @ zs)"
  using assms
proof (induction ys)
  case Nil
  have "insort_key f x (sort_key f zs) = x # sort_key f zs"
    using Nil.prems(2) by (intro insort_key_least) simp_all
  then show ?case by simp
next
  case (Cons y ys)
  then have "sort_key f (ys @ x # zs) = x # sort_key f (ys @ zs)" and "\<not> f y \<le> f x"
    by (simp_all add: not_le)
  then show ?case by simp
qed

lemma mergeLoop_sort:
  assumes "\<forall>l\<in>set events. l \<noteq> []" "\<forall>l\<in>set events. sorted (map key l)"
  shows "mergeLoop events merged = Inr (merged @ sort_key key (concat events))"
  using assms
proof (induction "sum_list (map length events)" arbitrary: events merged rule: less_induct)
  case less
  show ?case
  proof (cases "events = []")
    case True
    then show ?thesis by (simp add: mergeLoop_Nil)
  next
    case False
    from mergeLoop_step [OF less.prems(1) False, of merged]
    obtain k where k: "k < length events"
      and kmin: "\<forall>j<length events. key (hd (events ! k)) \<le> key (hd (events ! j))"
      and kfirst: "\<forall>j<k. key (hd (events ! k)) < key (hd (events ! j))"
      and step: "mergeLoop events merged = mergeLoop (popHead k events) (merged @ [hd (events ! k)])"
      by blast
    from k less.prems(1) have "events ! k \<noteq> []" by simp
    then obtain x xs where xk: "events ! k = x # xs"
      by (cases "events ! k") auto
    define A where "A = take k events"
    define B where "B = drop (Suc k) events"
    have ev: "events = A @ (x # xs) # B"
      and pop: "popHead k events = A @ (if xs = [] then [] else [xs]) @ B"
      using popHead_decomp [OF k xk] by (simp_all add: A_def B_def)
    have ne': "\<forall>l\<in>set (popHead k events). l \<noteq> []"
      using less.prems(1) by (subst pop, subst (asm) ev) auto
    have xsl: "x # xs \<in> set events" by (subst ev) simp
    then have sx: "sorted (map key (x # xs))" using less.prems(2) by blast
    have so': "\<forall>l\<in>set (popHead k events). sorted (map key l)"
      using less.prems(2) sx by (subst pop, subst (asm) (2) ev) auto
    have dec: "sum_list (map length (popHead k events)) < sum_list (map length events)"
      by (subst pop, subst ev) simp
    have cc: "concat (popHead k events) = concat A @ xs @ concat B"
      by (simp add: pop)
    have ce: "concat events = concat A @ x # (xs @ concat B)"
      by (subst ev) simp
    have lenA: "length A = k" using k by (simp add: A_def)
    have inA: "key x < key y" if "y \<in> set (concat A)" for y
    proof -
      from that obtain l where l: "l \<in> set A" "y \<in> set l" by auto
      then obtain j where j: "j < k" "A ! j = l"
        using lenA by (auto simp: in_set_conv_nth)
      then have ej: "events ! j = l" using k by (simp add: A_def)
      have "l \<in> set events" using l(1) by (auto simp: A_def dest: in_set_takeD)
      then have "sorted (map key l)" using less.prems(2) by blast
      then have "key (hd l) \<le> key y" using l(2) by (rule sorted_hd_le)
      moreover have "key x < key (hd l)" using kfirst j(1) ej xk by auto
      ultimately show ?thesis by simp
    qed
    have inrest: "key x \<le> key y" if "y \<in> set (xs @ concat B)" for y
    proof -
      from that have "\<exists>l\<in>set events. y \<in> set l"
      proof (cases "y \<in> set xs")
        case True
        with xsl show ?thesis by (metis list.set_intros(2))
      next
        case False
        with that obtain l where "l \<in> set B" "y \<in> set l" by auto
        then show ?thesis by (auto simp: B_def dest: in_set_dropD)
      qed
      then obtain l where l: "l \<in> set events" "y \<in> set l" by blast
      then obtain j where "j < length events" "events ! j = l"
        by (auto simp: in_set_conv_nth)
      with kmin xk have "key x \<le> key (hd l)" by auto
      moreover have "key (hd l) \<le> key y"
        using less.prems(2) l by (intro sorted_hd_le) auto
      ultimately show ?thesis by simp
    qed
    have "sort_key key (concat events) = x # sort_key key (concat A @ (xs @ concat B))"
      unfolding ce using inA inrest by (intro sort_key_least) auto
    then have srt: "sort_key key (concat events) = x # sort_key key (concat (popHead k events))"
      by (simp add: cc)
    from less.hyps [OF dec ne' so', of "merged @ [x]"] step xk srt
    show ?thesis by simp
  qed
qed

lemma merge_sort:
  assumes "\<forall>l\<in>set events. sorted (map key l)"
  shows "merge events = Inr (sort_key key (concat events))"
proof -
  have c: "concat (filter (\<lambda>l. l \<noteq> []) events) = concat events"
    by (induction events) auto
  have "mergeLoop (filter (\<lambda>l. l \<noteq> []) events) []
          = Inr ([] @ sort_key key (concat (filter (\<lambda>l. l \<noteq> []) events)))"
    using assms by (intro mergeLoop_sort) auto
  then show ?thesis
    by (simp add: merge_eq_mergeLoop c)
qed

text \<open>
  C3. \<^verbatim>\<open>merge\<close> always returns a list; it has as many elements as the input lists together
  (it is a permutation of their concatenation), and it is non-decreasing in the timestamp
  when every input list is. On such lists the result is the stable sort by timestamp of
  the lists put one after the other: of two events with the same timestamp the one from
  the list earlier in the argument order comes first, and events of one list keep their
  order. Empty input lists are skipped: the result is that of the non-empty lists alone,
  which is what the main loop returns on them, started with nothing merged. The main loop
  returns what it has merged once no list is left; each round, on non-empty lists, takes
  the head of a list \<open>k\<close> whose head has the lowest timestamp of all heads, every list
  before \<open>k\<close> having a head with a strictly higher timestamp (a tie goes to the earlier
  list), and goes on with what is left.
\<close>

theorem merge_kway:
  "(\<exists>r. merge events = Inr r
        \<and> length r = sum_list (map length events)
        \<and> mset r = mset (concat events)
        \<and> ((\<forall>l\<in>set events. sorted_wrt (\<lambda>a b. Ts a \<le>s Ts b) l)
             \<longrightarrow> sorted_wrt (\<lambda>a b. Ts a \<le>s Ts b) r))
   \<and> ((\<forall>l\<in>set events. sorted_wrt (\<lambda>a b. Ts a \<le>s Ts b) l)
        \<longrightarrow> merge events = Inr (sort_key (\<lambda>e. sint (Ts e)) (concat events)))
   \<and> merge events = merge (filter (\<lambda>l. l \<noteq> []) events)
   \<and> merge events = mergeLoop (filter (\<lambda>l. l \<noteq> []) events) []
   \<and> mergeLoop [] merged = Inr merged
   \<and> (ls \<noteq> [] \<and> (\<forall>l\<in>set ls. l \<noteq> []) \<longrightarrow>
        (\<exists>k<length ls.
           (\<forall>j<length ls. Ts (hd (ls ! k)) \<le>s Ts (hd (ls ! j)))
           \<and> (\<forall>j<k. \<not> Ts (hd (ls ! j)) \<le>s Ts (hd (ls ! k)))
           \<and> mergeLoop ls merged = mergeLoop (popHead k ls) (merged @ [hd (ls ! k)])))"
proof (intro conjI impI)
  show "\<exists>r. merge events = Inr r
        \<and> length r = sum_list (map length events)
        \<and> mset r = mset (concat events)
        \<and> ((\<forall>l\<in>set events. sorted_wrt (\<lambda>a b. Ts a \<le>s Ts b) l)
             \<longrightarrow> sorted_wrt (\<lambda>a b. Ts a \<le>s Ts b) r)"
    using merge_correct [of events] by (simp add: sorted_key) blast
  show "merge events = merge (filter (\<lambda>l. l \<noteq> []) events)"
    by (rule merge_skips_empty)
  show "merge events = mergeLoop (filter (\<lambda>l. l \<noteq> []) events) []"
    by (rule merge_eq_mergeLoop)
  show "mergeLoop [] merged = Inr merged"
    by (rule mergeLoop_Nil)
next
  assume "\<forall>l\<in>set events. sorted_wrt (\<lambda>a b. Ts a \<le>s Ts b) l"
  then have "\<forall>l\<in>set events. sorted (map key l)"
    by (simp add: sorted_key)
  then have "merge events = Inr (sort_key key (concat events))"
    by (rule merge_sort)
  then show "merge events = Inr (sort_key (\<lambda>e. sint (Ts e)) (concat events))"
    by (simp add: key_def [abs_def])
next
  assume h: "ls \<noteq> [] \<and> (\<forall>l\<in>set ls. l \<noteq> [])"
  then have "\<forall>l\<in>set ls. l \<noteq> []" "ls \<noteq> []" by simp_all
  from mergeLoop_step [OF this, of merged]
  show "\<exists>k<length ls.
           (\<forall>j<length ls. Ts (hd (ls ! k)) \<le>s Ts (hd (ls ! j)))
           \<and> (\<forall>j<k. \<not> Ts (hd (ls ! j)) \<le>s Ts (hd (ls ! k)))
           \<and> mergeLoop ls merged = mergeLoop (popHead k ls) (merged @ [hd (ls ! k)])"
    by (simp add: sle_key not_le)
qed

theorem merge_kway_witness:
  "sorted_wrt (\<lambda>a b. Ts a \<le>s Ts b) listA \<and> sorted_wrt (\<lambda>a b. Ts a \<le>s Ts b) listB
   \<and> merge [listA, [], listB] = Inr [tsEvent 0 ''a0'', tsEvent 0 ''b0'', tsEvent 3 ''b3'', tsEvent 5 ''a5'']
   \<and> sorted_wrt (\<lambda>a b. Ts a \<le>s Ts b) [tsEvent 0 ''a0'', tsEvent 0 ''b0'', tsEvent 3 ''b3'', tsEvent 5 ''a5'']
   \<and> merge [listA, [], listB] = merge [listA, listB]
   \<and> merge [listA, [], listB] = mergeLoop [listA, listB] []
   \<and> mergeLoop [listA, listB] [] = mergeLoop (popHead 0 [listA, listB]) [tsEvent 0 ''a0'']
   \<and> sorted_wrt (\<lambda>a b. Ts a \<le>s Ts b) listM \<and> sorted_wrt (\<lambda>a b. Ts a \<le>s Ts b) listS
   \<and> sorted_wrt (\<lambda>a b. Ts a \<le>s Ts b) listR
   \<and> merge [listM, listS, listR] = Inr [tsEvent 7 ''m'', tsEvent 7 ''s'', tsEvent 7 ''r'']"
proof -
  have s: "sorted_wrt (\<lambda>a b. Ts a \<le>s Ts b) listA" "sorted_wrt (\<lambda>a b. Ts a \<le>s Ts b) listB"
    by (simp_all add: listA_def listB_def tsEvent_def word_sle_eq)
  have ne: "listA \<noteq> []" "listB \<noteq> []"
    by (simp_all add: listA_def listB_def)
  have hd: "hd listA = tsEvent 0 ''a0''" "hd listB = tsEvent 0 ''b0''"
    by (simp_all add: listA_def listB_def)
  have ts: "Ts (tsEvent t n) = t" for t n
    by (simp add: tsEvent_def)
  note t = merge_kway [of "[listA, [], listB]" "[]" "[listA, listB]"]
  from t [THEN conjunct2, THEN conjunct1] s
  have r: "merge [listA, [], listB]
             = Inr [tsEvent 0 ''a0'', tsEvent 0 ''b0'', tsEvent 3 ''b3'', tsEvent 5 ''a5'']"
    by (simp add: listA_def listB_def ts)
  from t [THEN conjunct1] s r
  have rs: "sorted_wrt (\<lambda>a b. Ts a \<le>s Ts b)
              [tsEvent 0 ''a0'', tsEvent 0 ''b0'', tsEvent 3 ''b3'', tsEvent 5 ''a5'']"
    by auto
  from t [THEN conjunct2, THEN conjunct2, THEN conjunct1] ne
  have e: "merge [listA, [], listB] = merge [listA, listB]"
    by simp
  from t [THEN conjunct2, THEN conjunct2, THEN conjunct2, THEN conjunct1] ne
  have l: "merge [listA, [], listB] = mergeLoop [listA, listB] []"
    by simp
  from t [THEN conjunct2, THEN conjunct2, THEN conjunct2, THEN conjunct2, THEN conjunct2] ne
  obtain k where k: "k < length [listA, listB]"
      "\<forall>j<k. \<not> Ts (hd ([listA, listB] ! j)) \<le>s Ts (hd ([listA, listB] ! k))"
      "mergeLoop [listA, listB] [] = mergeLoop (popHead k [listA, listB]) ([] @ [hd ([listA, listB] ! k)])"
    by auto
  have "k = 0"
  proof (rule ccontr)
    assume "k \<noteq> 0"
    with k(1) have "k = 1" by simp
    with k(2) have "\<not> Ts (hd listA) \<le>s Ts (hd listB)" by auto
    then show False by (simp add: hd tsEvent_def word_sle_eq)
  qed
  with k(3) hd have st: "mergeLoop [listA, listB] [] = mergeLoop (popHead 0 [listA, listB]) [tsEvent 0 ''a0'']"
    by simp
  have s3: "sorted_wrt (\<lambda>a b. Ts a \<le>s Ts b) listM" "sorted_wrt (\<lambda>a b. Ts a \<le>s Ts b) listS"
    "sorted_wrt (\<lambda>a b. Ts a \<le>s Ts b) listR"
    by (simp_all add: listM_def listS_def listR_def)
  from merge_kway [of "[listM, listS, listR]" "[]" "[]", THEN conjunct2, THEN conjunct1] s3
  have tie: "merge [listM, listS, listR] = Inr [tsEvent 7 ''m'', tsEvent 7 ''s'', tsEvent 7 ''r'']"
    by (simp add: listM_def listS_def listR_def ts)
  from s r rs e l st s3 tie show ?thesis by simp
qed

subsection \<open>Conversions\<close>

lemma Split_nonempty: "Split s sep \<noteq> []"
  by (induction s) (auto split: list.splits)

lemma Split_no_sep: "sep \<notin> set s \<Longrightarrow> Split s sep = [s]"
  by (induction s) auto

lemma Split_sep: "sep \<notin> set a \<Longrightarrow> Split (a @ sep # r) sep = a # Split r sep"
  by (induction a) auto

lemma convertTS_no_dot: "CHR ''.'' \<notin> set ts \<Longrightarrow> convertTS ts = Inr 0"
  by (simp add: convertTS_def Split_no_sep)

lemma convertTS_dot:
  assumes "CHR ''.'' \<notin> set a"
  shows "convertTS (a @ CHR ''.'' # r) =
           (case Atoi (a @ hd (Split r CHR ''.'')) of None \<Rightarrow> Inl Fatal | Some i \<Rightarrow> Inr i)"
proof -
  obtain w ws where "Split r CHR ''.'' = w # ws"
    using Split_nonempty [of r "CHR ''.''"] by (cases "Split r CHR ''.''") auto
  then show ?thesis
    using assms by (simp add: convertTS_def Split_sep)
qed

lemma decimal_append: "decimal n (a @ b) = decimal (decimal n a) b"
  by (induction a arbitrary: n) auto

lemma decimal_shift: "decimal n s = n * 10 ^ length s + decimal 0 s"
proof (induction s arbitrary: n)
  case Nil
  then show ?case by simp
next
  case (Cons c s)
  have "decimal n (c # s) = decimal (n * 10 + (of_char c - 48)) s" by simp
  also have "\<dots> = (n * 10 + (of_char c - 48)) * 10 ^ length s + decimal 0 s"
    by (rule Cons.IH)
  also have "\<dots> = n * 10 ^ length (c # s) + ((of_char c - 48) * 10 ^ length s + decimal 0 s)"
    by (simp add: algebra_simps)
  also have "(of_char c - 48) * 10 ^ length s + decimal 0 s = decimal 0 (c # s)"
    using Cons.IH [of "of_char c - 48"] by simp
  finally show ?case .
qed

lemma decimal_digits_bounds:
  "list_all isDigit s \<Longrightarrow> 0 \<le> decimal 0 s \<and> decimal 0 s < 10 ^ length s"
proof (induction s rule: rev_induct)
  case Nil
  then show ?case by simp
next
  case (snoc c s)
  then have s: "list_all isDigit s" and c: "isDigit c"
    by simp_all
  from c have d: "48 \<le> (of_char c :: nat)" "(of_char c :: nat) \<le> 57"
    by (simp_all add: isDigit_def)
  have "decimal 0 (s @ [c]) = decimal 0 s * 10 + (of_char c - 48)"
    by (simp add: decimal_append)
  moreover have "(of_char c :: int) = int (of_char c)"
    by (simp add: of_nat_of_char)
  then have "(0::int) \<le> of_char c - 48" "(of_char c :: int) - 48 \<le> 9"
    using d by simp_all
  ultimately show ?case using snoc.IH [OF s] by auto
qed

lemma isDigit_not_dot: "list_all isDigit s \<Longrightarrow> CHR ''.'' \<notin> set s"
  by (induction s) (auto simp: isDigit_def)

lemma Atoi_digits:
  assumes "list_all isDigit s" "s \<noteq> []" "length s < 19"
  shows "Atoi s = Some (word_of_int (decimal 0 s))"
proof -
  have h: "hd s \<noteq> CHR ''-''" "hd s \<noteq> CHR ''+''"
    using assms(1,2) by (cases s; auto simp: isDigit_def)+
  have "decimal 0 s < 10 ^ length s" "0 \<le> decimal 0 s"
    using decimal_digits_bounds [OF assms(1)] by simp_all
  moreover have "(10::int) ^ length s \<le> 10 ^ 18"
    using assms(3) by (intro power_increasing) simp_all
  ultimately have "- (2 ^ 63) \<le> decimal 0 s" "decimal 0 s < 2 ^ 63"
    by simp_all
  then show ?thesis
    using assms(1,2) h by (simp add: Atoi_def Let_def)
qed

lemma convertTS_digits:
  assumes "list_all isDigit a" "list_all isDigit b" "a @ b \<noteq> []" "length a + length b < 19"
  shows "convertTS (a @ ''.'' @ b) = Inr (word_of_int (decimal 0 a * 10 ^ length b + decimal 0 b))"
proof -
  have "convertTS (a @ CHR ''.'' # b) =
          (case Atoi (a @ hd (Split b CHR ''.'')) of None \<Rightarrow> Inl Fatal | Some i \<Rightarrow> Inr i)"
    using assms(1) by (intro convertTS_dot isDigit_not_dot)
  moreover have "Split b CHR ''.'' = [b]"
    using assms(2) by (intro Split_no_sep isDigit_not_dot)
  moreover have "Atoi (a @ b) = Some (word_of_int (decimal 0 (a @ b)))"
    using assms by (intro Atoi_digits) simp_all
  moreover have "decimal 0 (a @ b) = decimal 0 a * 10 ^ length b + decimal 0 b"
    using decimal_shift [of "decimal 0 a" b] by (simp add: decimal_append)
  ultimately show ?thesis by simp
qed

lemma convertTS_example: "convertTS ''0.000020'' = Inr 20"
  by (simp add: convertTS_def Atoi_def isDigit_def)

lemma convertTS_error: "convertTS s = Inl err \<Longrightarrow> err = Fatal"
  by (auto simp: convertTS_def Let_def split: if_splits option.splits)

lemma convertID_error: "convertID s = Inl err \<Longrightarrow> err = Fatal"
  by (auto simp: convertID_def split: option.splits)

subsection \<open>Building an event\<close>

lemma addFields_fatal:
  assumes "getReGroups G e = Inr g" "4 \<le> length g"
    and "convertTS (g ! 2) = Inl Fatal \<or> convertID (g ! 1) = Inl Fatal"
  shows "addFields G e = Inl Fatal"
  using assms by (auto simp: addFields_def index_def split: sum.splits dest: convertTS_error)

lemma addFieldsCat_fatal:
  assumes "7 \<le> length g" "Cat e = ''successful'' \<or> Cat e = ''failed'' \<or> Cat e = ''detached''"
    and "convertTS (g ! 6) = Inl Fatal"
  shows "addFieldsCat e g = Inl Fatal"
  using assms by (auto simp: addFieldsCat_def index_def)

lemma NewEvent_fatal:
  assumes g: "getReGroups G (getType (zeroEvent\<lparr>fullTrace := l\<rparr>)) = Inr g" and len: "5 \<le> length g"
    and bad: "convertTS (g ! 2) = Inl Fatal \<or> convertID (g ! 1) = Inl Fatal
       \<or> (7 \<le> length g
           \<and> Cat (getType (zeroEvent\<lparr>fullTrace := l\<rparr>)) \<in> {''successful'', ''failed'', ''detached''}
           \<and> convertTS (g ! 6) = Inl Fatal)"
  shows "NewEvent G l = Inl Fatal"
proof (cases "convertTS (g ! 2) = Inl Fatal \<or> convertID (g ! 1) = Inl Fatal")
  case True
  with g len show ?thesis
    unfolding NewEvent_def by (intro addFields_fatal [where g = g]) simp_all
next
  case False
  with bad have d: "7 \<le> length g" "convertTS (g ! 6) = Inl Fatal"
    and c: "Cat (getType (zeroEvent\<lparr>fullTrace := l\<rparr>)) \<in> {''successful'', ''failed'', ''detached''}"
    by simp_all
  from False obtain ts pid where ok: "convertTS (g ! 2) = Inr ts" "convertID (g ! 1) = Inr pid"
    by (metis convertTS_error convertID_error sum.exhaust)
  let ?e = "getType (zeroEvent\<lparr>fullTrace := l\<rparr>)"
  have "addFields G ?e =
          addFieldsCat (?e\<lparr>Name := g ! 3, Ts := ts, Pid := pid, Tid := pid,
                           Args := (Args ?e)\<lparr>First := g ! 4\<rparr>\<rparr>) g"
    using g len ok by (auto simp: addFields_def index_def)
  also have "\<dots> = Inl Fatal"
    using d c by (intro addFieldsCat_fatal) auto
  finally show ?thesis by (simp add: NewEvent_def)
qed

subsection \<open>The scan and the whole run\<close>

lemma scanLines_abort:
  assumes "scanLines G st pre = Inr st'" "scanLine G st' l = Inl err"
  shows "scanLines G st (pre @ l # post) = Inl err"
  using assms
proof (induction pre arbitrary: st)
  case Nil
  then show ?case by simp
next
  case (Cons a pre)
  then show ?case by (cases "scanLine G st a") auto
qed

lemma mainEvents_abort:
  assumes "scanLines (submatches env) scan0 pre = Inr st" "scanLine (submatches env) st l = Inl err"
  shows "mainEvents env (pre @ l # post) = Inl err"
  using scanLines_abort [OF assms] by (simp add: mainEvents_def)

lemma mainEvents_returns:
  assumes "scanLines (submatches env) scan0 content = Inr st"
    and "flushPreserved (preservedOrder env) st \<noteq> []"
  shows "\<exists>r. mainEvents env content = Inr r"
proof -
  have "\<exists>p. buildProcessTree (flushPreserved (preservedOrder env) st) = Inr p"
    using assms(2) by (auto simp: buildProcessTree_def index_def split: prod.splits)
  then obtain evs pt where "buildProcessTree (flushPreserved (preservedOrder env) st) = Inr (evs, pt)"
    by force
  then show ?thesis
    using assms(1) merge_correct by (auto simp: mainEvents_def split: prod.splits) 
qed

text \<open>
  C5 (as amended). A timestamp or duration text with a dot is converted by concatenating
  the text before the first dot and the text between the first and the second dot (all
  that follows the first dot when there is no second) and reading the result as an
  integer: for digit groups \<open>a\<close> and \<open>b\<close> of at most 18 digits together the value is
  \<open>a\<close> times ten to the number of digits of \<open>b\<close>, plus \<open>b\<close>, no multiplication by a fixed
  factor, so that \<^verbatim>\<open>0.000020\<close> converts to 20. When that concatenation is not an integer
  the conversion is fatal, as is an id that is not an integer, and a line of the log with
  such a field stops the whole run with that error. A text with no dot converts to 0
  without an error.
\<close>

theorem convertTS_concatenates:
  "(CHR ''.'' \<notin> set ts \<longrightarrow> convertTS ts = Inr 0)
   \<and> (CHR ''.'' \<notin> set a \<longrightarrow>
        convertTS (a @ CHR ''.'' # r) =
          (case Atoi (a @ hd (Split r CHR ''.'')) of None \<Rightarrow> Inl Fatal | Some i \<Rightarrow> Inr i))
   \<and> (list_all isDigit a \<and> list_all isDigit b \<and> a @ b \<noteq> [] \<and> length a + length b < 19 \<longrightarrow>
        convertTS (a @ ''.'' @ b) = Inr (word_of_int (decimal 0 a * 10 ^ length b + decimal 0 b)))
   \<and> convertTS ''0.000020'' = Inr 20
   \<and> convertID s = (case Atoi s of None \<Rightarrow> Inl Fatal | Some i \<Rightarrow> Inr i)
   \<and> (scanLines (submatches env) scan0 pre = Inr st
        \<and> getReGroups (submatches env) (getType (zeroEvent\<lparr>fullTrace := l\<rparr>)) = Inr g
        \<and> 5 \<le> length g
        \<and> (convertTS (g ! 2) = Inl Fatal \<or> convertID (g ! 1) = Inl Fatal
            \<or> (7 \<le> length g
                \<and> Cat (getType (zeroEvent\<lparr>fullTrace := l\<rparr>)) \<in> {''successful'', ''failed'', ''detached''}
                \<and> convertTS (g ! 6) = Inl Fatal)) \<longrightarrow>
        mainEvents env (pre @ l # post) = Inl Fatal)"
proof (intro conjI impI)
  show "convertTS ''0.000020'' = Inr 20" by (rule convertTS_example)
  show "convertID s = (case Atoi s of None \<Rightarrow> Inl Fatal | Some i \<Rightarrow> Inr i)"
    by (simp add: convertID_def)
next
  assume "CHR ''.'' \<notin> set ts"
  then show "convertTS ts = Inr 0" by (rule convertTS_no_dot)
next
  assume "CHR ''.'' \<notin> set a"
  then show "convertTS (a @ CHR ''.'' # r) =
          (case Atoi (a @ hd (Split r CHR ''.'')) of None \<Rightarrow> Inl Fatal | Some i \<Rightarrow> Inr i)"
    by (rule convertTS_dot)
next
  assume "list_all isDigit a \<and> list_all isDigit b \<and> a @ b \<noteq> [] \<and> length a + length b < 19"
  then show "convertTS (a @ ''.'' @ b) = Inr (word_of_int (decimal 0 a * 10 ^ length b + decimal 0 b))"
    by (intro convertTS_digits) simp_all
next
  assume h: "scanLines (submatches env) scan0 pre = Inr st
        \<and> getReGroups (submatches env) (getType (zeroEvent\<lparr>fullTrace := l\<rparr>)) = Inr g
        \<and> 5 \<le> length g
        \<and> (convertTS (g ! 2) = Inl Fatal \<or> convertID (g ! 1) = Inl Fatal
            \<or> (7 \<le> length g
                \<and> Cat (getType (zeroEvent\<lparr>fullTrace := l\<rparr>)) \<in> {''successful'', ''failed'', ''detached''}
                \<and> convertTS (g ! 6) = Inl Fatal))"
  then have "NewEvent (submatches env) l = Inl Fatal"
    by (intro NewEvent_fatal [where g = g]) simp_all
  then have "scanLine (submatches env) st l = Inl Fatal"
    by (simp add: scanLine_def)
  with h show "mainEvents env (pre @ l # post) = Inl Fatal"
    by (intro mainEvents_abort [where st = st]) simp_all
qed

lemma getType_lineBadDur:
  "getType (zeroEvent\<lparr>fullTrace := lineBadDur\<rparr>) = zeroEvent\<lparr>fullTrace := lineBadDur, Cat := ''successful''\<rparr>"
  by (simp add: getType_def lineBadDur_def zeroEvent_def rx_eval)

theorem convertTS_concatenates_witness:
  "CHR ''.'' \<notin> set ''12'' \<and> convertTS ''12'' = Inr 0
   \<and> convertTS ''0.000020.7'' = Inr 20
   \<and> list_all isDigit ''0'' \<and> list_all isDigit ''000020'' \<and> convertTS ''0.000020'' = Inr 20
   \<and> convertID ''1x'' = Inl Fatal
   \<and> scanLines (submatches envBadDur) scan0 [] = Inr scan0
   \<and> Cat (getType (zeroEvent\<lparr>fullTrace := lineBadDur\<rparr>)) = ''successful''
   \<and> convertTS ''a.b'' = Inl Fatal
   \<and> mainEvents envBadDur [lineBadDur] = Inl Fatal"
proof -
  note t = convertTS_concatenates [where ts = "''12''" and a = "''0''" and r = "''000020.7''"
      and b = "''000020''" and s = "''1x''" and env = envBadDur and pre = "[]" and st = scan0
      and l = lineBadDur and g = "[lineBadDur, ''1'', ''0.1'', ''f'', ''()'', ''0'', ''a.b'']"
      and post = "[]"]
  have d: "list_all isDigit ''0''" "list_all isDigit ''000020''"
    by (simp_all add: isDigit_def)
  have c: "Cat (getType (zeroEvent\<lparr>fullTrace := lineBadDur\<rparr>)) = ''successful''"
    by (simp add: getType_lineBadDur)
  have g: "getReGroups (submatches envBadDur) (getType (zeroEvent\<lparr>fullTrace := lineBadDur\<rparr>))
             = Inr [lineBadDur, ''1'', ''0.1'', ''f'', ''()'', ''0'', ''a.b'']"
    by (simp add: getType_lineBadDur getReGroups_def firstSubmatch_def envBadDur_def envOf_def
        tableGroups_def)
  have b: "convertTS ''a.b'' = Inl Fatal"
    by (simp add: convertTS_def Atoi_def isDigit_def)
  from t [THEN conjunct1] have t1: "convertTS ''12'' = Inr 0"
    by simp
  from t [THEN conjunct2, THEN conjunct1] have t2: "convertTS ''0.000020.7'' = Inr 20"
    by (simp add: Atoi_def isDigit_def)
  from t [THEN conjunct2, THEN conjunct2, THEN conjunct1] d have t3: "convertTS ''0.000020'' = Inr 20"
    by simp
  from t [THEN conjunct2, THEN conjunct2, THEN conjunct2, THEN conjunct2, THEN conjunct1]
  have t5: "convertID ''1x'' = Inl Fatal"
    by (simp add: Atoi_def isDigit_def)
  from t [THEN conjunct2, THEN conjunct2, THEN conjunct2, THEN conjunct2, THEN conjunct2] c g b
  have t6: "mainEvents envBadDur [lineBadDur] = Inl Fatal"
    by simp
  from d c b t1 t2 t3 t5 t6 show ?thesis by simp
qed

lemma getType_lineNoDot:
  "getType (zeroEvent\<lparr>fullTrace := lineNoDot\<rparr>) = zeroEvent\<lparr>fullTrace := lineNoDot, Cat := ''successful''\<rparr>"
  by (simp add: getType_def lineNoDot_def zeroEvent_def rx_eval)

lemma NewEvent_lineNoDot:
  "NewEvent (submatches envNoDot) lineNoDot =
     Inr (zeroEvent\<lparr>fullTrace := lineNoDot, Name := ''f'', Cat := ''successful'', Ph := ''X'',
                    Pid := 1, Tid := 1, Ts := 1, Dur := 0,
                    Args := zeroArgs\<lparr>First := ''()'', ReturnValue := ''0''\<rparr>\<rparr>)"
  unfolding NewEvent_def getType_lineNoDot
  by (simp add: addFields_def addFieldsCat_def getReGroups_def firstSubmatch_def envNoDot_def
      envOf_def tableGroups_def index_def convertTS_def convertID_def Atoi_def isDigit_def
      zeroEvent_def zeroArgs_def)

text \<open>
  C5 as stated fails: the duration text \<^verbatim>\<open>abc\<close> is no number, yet it converts to 0 and
  the run of a log with such a line returns its events.
\<close>

theorem convertTS_no_dot_not_fatal:
  "Atoi ''abc'' = None \<and> convertTS ''abc'' = Inr 0 \<and> \<not> isl (mainEvents envNoDot [lineNoDot])"
proof -
  have "\<exists>st. scanLines (submatches envNoDot) scan0 [lineNoDot] = Inr st \<and> syscallEvents st \<noteq> []"
    by (simp add: scanLine_def NewEvent_lineNoDot scanEvent_def scanSwitch_def markAlive_def
        scan0_def zeroEvent_def)
  then obtain st where "scanLines (submatches envNoDot) scan0 [lineNoDot] = Inr st"
    "flushPreserved (preservedOrder envNoDot) st \<noteq> []"
    by (auto simp: flushPreserved_def)
  from mainEvents_returns [OF this] have "\<not> isl (mainEvents envNoDot [lineNoDot])"
    by auto
  then show ?thesis
    by (simp add: Atoi_def isDigit_def convertTS_def)
qed

subsection \<open>Matching\<close>

lemma nullable_lang: "nullable r = ([] \<in> lang r)"
  by (induction r) (auto intro: star.intros)

lemma star_Cons_dest:
  assumes "x \<in> star L"
  shows "x = c # w \<Longrightarrow> \<exists>u v. w = u @ v \<and> c # u \<in> L \<and> v \<in> star L"
  using assms
proof (induction arbitrary: w)
  case star_empty
  then show ?case by simp
next
  case (star_append u v)
  show ?case
  proof (cases u)
    case Nil
    with star_append show ?thesis by simp
  next
    case (Cons a u')
    with star_append.prems have "a = c" "w = u' @ v" by simp_all
    with Cons star_append.hyps show ?thesis by blast
  qed
qed

lemma star_Cons:
  "(c # w \<in> star L) = (\<exists>u v. w = u @ v \<and> c # u \<in> L \<and> v \<in> star L)"
proof
  assume "c # w \<in> star L"
  then show "\<exists>u v. w = u @ v \<and> c # u \<in> L \<and> v \<in> star L"
    by (rule star_Cons_dest) simp
next
  assume "\<exists>u v. w = u @ v \<and> c # u \<in> L \<and> v \<in> star L"
  then obtain u v where "w = u @ v" "c # u \<in> L" "v \<in> star L" by blast
  then show "c # w \<in> star L"
    using star_append [of "c # u" L v] by simp
qed

lemma pderiv_lang: "(\<exists>r'\<in>set (pderiv c r). w \<in> lang r') = (c # w \<in> lang r)"
proof (induction r arbitrary: w)
  case Eps
  then show ?case by simp
next
  case (Atom a)
  then show ?case by auto
next
  case (Seq r s)
  have a: "(c # w \<in> lang (Seq r s))
          = ((\<exists>u v. w = u @ v \<and> c # u \<in> lang r \<and> v \<in> lang s) \<or> ([] \<in> lang r \<and> c # w \<in> lang s))"
    by (auto simp: Cons_eq_append_conv)
  have b: "(\<exists>u v. w = u @ v \<and> c # u \<in> lang r \<and> v \<in> lang s)
             = (\<exists>r'\<in>set (pderiv c r). w \<in> lang (Seq r' s))"
    unfolding Seq.IH(1) [symmetric] by fastforce
  have d: "(\<exists>r'\<in>set (pderiv c (Seq r s)). w \<in> lang r')
             = ((\<exists>r'\<in>set (pderiv c r). w \<in> lang (Seq r' s))
                \<or> (nullable r \<and> (\<exists>s'\<in>set (pderiv c s). w \<in> lang s')))"
    by (cases "nullable r") (simp_all add: bex_Un)
  show ?case
    unfolding a b d by (simp add: Seq.IH(2) nullable_lang)
next
  case (Alt r s)
  show ?case by (simp add: bex_Un Alt.IH)
next
  case (Star r)
  have a: "(c # w \<in> lang (Star r)) = (\<exists>u v. w = u @ v \<and> c # u \<in> lang r \<and> v \<in> star (lang r))"
    by (simp add: star_Cons)
  have b: "(\<exists>u v. w = u @ v \<and> c # u \<in> lang r \<and> v \<in> star (lang r))
             = (\<exists>r'\<in>set (pderiv c r). w \<in> lang (Seq r' (Star r)))"
    unfolding Star.IH [symmetric] by fastforce
  show ?case
    unfolding a b by simp
qed

lemma matchFrom_lang: "matchFrom rs s = (\<exists>r\<in>set rs. \<exists>p q. s = p @ q \<and> p \<in> lang r)"
proof (induction s arbitrary: rs)
  case Nil
  then show ?case by (auto simp: list_ex_iff nullable_lang)
next
  case (Cons c cs)
  have "(\<exists>r\<in>set rs. \<exists>p q. c # cs = p @ q \<and> p \<in> lang r)
          = ((\<exists>r\<in>set rs. [] \<in> lang r) \<or> (\<exists>r\<in>set rs. \<exists>p q. cs = p @ q \<and> c # p \<in> lang r))"
    by (auto simp: Cons_eq_append_conv) 
  also have "\<dots> = ((\<exists>r\<in>set rs. nullable r)
                    \<or> (\<exists>r'\<in>set (remdups (concat (map (pderiv c) rs))). \<exists>p q. cs = p @ q \<and> p \<in> lang r'))"
  proof -
    have "(\<exists>r\<in>set rs. \<exists>p q. cs = p @ q \<and> c # p \<in> lang r)
            = (\<exists>r\<in>set rs. \<exists>p q. cs = p @ q \<and> (\<exists>r'\<in>set (pderiv c r). p \<in> lang r'))"
      by (simp add: pderiv_lang)
    also have "\<dots> = (\<exists>r'\<in>set (remdups (concat (map (pderiv c) rs))). \<exists>p q. cs = p @ q \<and> p \<in> lang r')"
      by fastforce
    finally show ?thesis by (simp add: nullable_lang)
  qed
  finally show ?case
    by (simp add: Cons.IH list_ex_iff)
qed

text \<open>A line matches a pattern exactly when the pattern matches one of its prefixes.\<close>

lemma MatchString_lang: "MatchString r s = (\<exists>p q. s = p @ q \<and> p \<in> lang r)"
  by (simp add: MatchString_def matchFrom_lang)

subsection \<open>Classification\<close>

text \<open>
  C4. \<^verbatim>\<open>getType\<close> changes nothing but the category, which is one of six; the grammars
  are tried in the order failed, successful, unfinished, detached, exited, and the first
  that matches decides: a line that matches the failed grammar is \<^verbatim>\<open>failed\<close> whether or
  not it matches the successful one, and a line that matches none is \<^verbatim>\<open>other\<close>. A line
  matches a grammar when the pattern matches one of its prefixes (\<open>MatchString_lang\<close>).
\<close>

theorem getType_first_match:
  "getType e = e\<lparr>Cat := Cat (getType e)\<rparr>
   \<and> Cat (getType e) \<in> {''failed'', ''successful'', ''unfinished'', ''detached'', ''lifetime'', ''other''}
   \<and> (MatchString regexpFailed (fullTrace e) \<longrightarrow> Cat (getType e) = ''failed'')
   \<and> (\<not> MatchString regexpFailed (fullTrace e) \<and> MatchString regexpSuccessful (fullTrace e)
        \<longrightarrow> Cat (getType e) = ''successful'')
   \<and> (\<not> MatchString regexpFailed (fullTrace e) \<and> \<not> MatchString regexpSuccessful (fullTrace e)
        \<and> MatchString regexpUnfinished (fullTrace e) \<longrightarrow> Cat (getType e) = ''unfinished'')
   \<and> (\<not> MatchString regexpFailed (fullTrace e) \<and> \<not> MatchString regexpSuccessful (fullTrace e)
        \<and> \<not> MatchString regexpUnfinished (fullTrace e) \<and> MatchString regexpDetached (fullTrace e)
        \<longrightarrow> Cat (getType e) = ''detached'')
   \<and> (\<not> MatchString regexpFailed (fullTrace e) \<and> \<not> MatchString regexpSuccessful (fullTrace e)
        \<and> \<not> MatchString regexpUnfinished (fullTrace e) \<and> \<not> MatchString regexpDetached (fullTrace e)
        \<and> MatchString regexpExited (fullTrace e) \<longrightarrow> Cat (getType e) = ''lifetime'')
   \<and> (\<not> MatchString regexpFailed (fullTrace e) \<and> \<not> MatchString regexpSuccessful (fullTrace e)
        \<and> \<not> MatchString regexpUnfinished (fullTrace e) \<and> \<not> MatchString regexpDetached (fullTrace e)
        \<and> \<not> MatchString regexpExited (fullTrace e) \<longrightarrow> Cat (getType e) = ''other'')"
  by (simp add: getType_def)

theorem getType_first_match_witness:
  "MatchString regexpFailed lineFailedCall \<and> MatchString regexpSuccessful lineFailedCall
   \<and> Cat (getType (zeroEvent\<lparr>fullTrace := lineFailedCall\<rparr>)) = ''failed''
   \<and> \<not> MatchString regexpFailed ''hello'' \<and> \<not> MatchString regexpSuccessful ''hello''
   \<and> \<not> MatchString regexpUnfinished ''hello'' \<and> \<not> MatchString regexpDetached ''hello''
   \<and> \<not> MatchString regexpExited ''hello''
   \<and> Cat (getType (zeroEvent\<lparr>fullTrace := ''hello''\<rparr>)) = ''other''"
proof -
  have m: "MatchString regexpFailed lineFailedCall" "MatchString regexpSuccessful lineFailedCall"
    by (simp_all add: lineFailedCall_def rx_eval)
  have n: "\<not> MatchString regexpFailed ''hello''" "\<not> MatchString regexpSuccessful ''hello''"
    "\<not> MatchString regexpUnfinished ''hello''" "\<not> MatchString regexpDetached ''hello''"
    "\<not> MatchString regexpExited ''hello''"
    by (simp_all add: rx_eval)
  have f: "fullTrace (zeroEvent\<lparr>fullTrace := s\<rparr>) = s" for s
    by simp
  from getType_first_match [of "zeroEvent\<lparr>fullTrace := lineFailedCall\<rparr>"] m(1)
  have a: "Cat (getType (zeroEvent\<lparr>fullTrace := lineFailedCall\<rparr>)) = ''failed''"
    unfolding f by blast
  from getType_first_match [of "zeroEvent\<lparr>fullTrace := ''hello''\<rparr>"] n
  have b: "Cat (getType (zeroEvent\<lparr>fullTrace := ''hello''\<rparr>)) = ''other''"
    unfolding f by blast
  from m n a b show ?thesis by simp
qed

subsection \<open>A log with no events\<close>

lemma NewEvent_other:
  assumes "Cat (getType (zeroEvent\<lparr>fullTrace := l\<rparr>)) = ''other''"
  shows "NewEvent G l = Inr (getType (zeroEvent\<lparr>fullTrace := l\<rparr>))"
  using assms by (simp add: NewEvent_def addFields_def getReGroups_def)

lemma scanLines_other:
  assumes "\<forall>l\<in>set content. Cat (getType (zeroEvent\<lparr>fullTrace := l\<rparr>)) = ''other''"
  shows "scanLines G st content = Inr st"
  using assms by (induction content) (simp_all add: scanLine_def NewEvent_other scanEvent_def)

lemma rangeOver_empty: "rangeOver ks Map.empty = []"
  by (induction ks) (simp_all add: rangeOver_def List.map_filter_simps)

lemma mainEvents_no_events:
  assumes "scanLines (submatches env) scan0 content = Inr st"
    and "flushPreserved (preservedOrder env) st = []"
  shows "mainEvents env content = Inl IndexOutOfRange"
  using assms by (simp add: mainEvents_def buildProcessTree_def index_def)

text \<open>
  C9. When the scan of the log leaves no event, the run stops with an index out of
  range at \<^verbatim>\<open>syscallEvents[0]\<close> and hands no list to \<^verbatim>\<open>Save\<close>. That is so for a log whose
  lines are all classified \<^verbatim>\<open>other\<close>, and for the empty log.
\<close>

theorem no_events_index_out_of_range:
  "(scanLines (submatches env) scan0 content = Inr st
      \<and> flushPreserved (preservedOrder env) st = []
    \<longrightarrow> mainEvents env content = Inl IndexOutOfRange)
   \<and> ((\<forall>l\<in>set content. Cat (getType (zeroEvent\<lparr>fullTrace := l\<rparr>)) = ''other'')
    \<longrightarrow> mainEvents env content = Inl IndexOutOfRange)
   \<and> mainEvents env [] = Inl IndexOutOfRange"
proof (intro conjI impI)
  assume "scanLines (submatches env) scan0 content = Inr st
      \<and> flushPreserved (preservedOrder env) st = []"
  then show "mainEvents env content = Inl IndexOutOfRange"
    by (intro mainEvents_no_events [where st = st]) simp_all
next
  have e: "flushPreserved (preservedOrder env) scan0 = []"
    by (simp add: flushPreserved_def scan0_def rangeOver_empty)
  show "mainEvents env [] = Inl IndexOutOfRange"
    using e by (intro mainEvents_no_events [where st = scan0]) simp_all
  assume "\<forall>l\<in>set content. Cat (getType (zeroEvent\<lparr>fullTrace := l\<rparr>)) = ''other''"
  then have "scanLines (submatches env) scan0 content = Inr scan0"
    by (rule scanLines_other)
  then show "mainEvents env content = Inl IndexOutOfRange"
    using e by (rule mainEvents_no_events)
qed

theorem no_events_index_out_of_range_witness:
  "Cat (getType (zeroEvent\<lparr>fullTrace := ''hello''\<rparr>)) = ''other''
   \<and> Cat (getType (zeroEvent\<lparr>fullTrace := ''+++ exited with 0 +++''\<rparr>)) = ''other''
   \<and> scanLines (submatches (envOf [])) scan0 [''hello'', ''+++ exited with 0 +++''] = Inr scan0
   \<and> flushPreserved (preservedOrder (envOf [])) scan0 = []
   \<and> mainEvents (envOf []) [''hello'', ''+++ exited with 0 +++''] = Inl IndexOutOfRange
   \<and> mainEvents (envOf []) [] = Inl IndexOutOfRange"
proof -
  note t = no_events_index_out_of_range [of "envOf []" "[''hello'', ''+++ exited with 0 +++'']" scan0]
  have c: "Cat (getType (zeroEvent\<lparr>fullTrace := ''hello''\<rparr>)) = ''other''"
    "Cat (getType (zeroEvent\<lparr>fullTrace := ''+++ exited with 0 +++''\<rparr>)) = ''other''"
    by (simp_all add: getType_def zeroEvent_def rx_eval)
  then have s: "scanLines (submatches (envOf [])) scan0 [''hello'', ''+++ exited with 0 +++''] = Inr scan0"
    by (intro scanLines_other) simp
  have f: "flushPreserved (preservedOrder (envOf [])) scan0 = []"
    by (simp add: flushPreserved_def scan0_def rangeOver_empty)
  from t [THEN conjunct2, THEN conjunct1] c
  have a: "mainEvents (envOf []) [''hello'', ''+++ exited with 0 +++''] = Inl IndexOutOfRange"
    by simp
  from t [THEN conjunct1] s f
  have "mainEvents (envOf []) [''hello'', ''+++ exited with 0 +++''] = Inl IndexOutOfRange"
    by simp
  from t [THEN conjunct2, THEN conjunct2] have b: "mainEvents (envOf []) [] = Inl IndexOutOfRange" .
  from c s f a b show ?thesis by simp
qed

subsection \<open>Arithmetic of \<^verbatim>\<open>int\<close> without overflow\<close>


lemma go_int_succ:
  fixes a :: go_int
  assumes "sint a < 2 ^ 63 - 1"
  shows "sint (a + 1) = sint a + 1"
proof -
  have "- (2 ^ 63) \<le> sint a"
    using sint_ge [of a] by simp
  with assms have "- (2 ^ 63) \<le> sint a + 1" "sint a + 1 < 2 ^ 63"
    by simp_all
  then show ?thesis
    by (simp add: sint_word_add signed_take_bit_int_eq_self)
qed

subsection \<open>Interrupted calls\<close>





lemma markAlive_preserved: "preserved (markAlive st e) = preserved st"
  by (simp add: markAlive_def)


lemma scanEvent_detached_missing:
  assumes "Cat e = ''detached''" "preserved st (preservedKey e) = None"
  shows "scanEvent st e = Inl NilDereference"
  using assms by (simp add: scanEvent_def scanSwitch_def markAlive_preserved)

text \<open>
  C7. A \<^verbatim>\<open>detached\<close> event whose key is not in the table of preserved events stops the
  run with a nil pointer dereference: the event is neither skipped nor emitted as an
  instant event, and the run of a log with such a line returns no list.
\<close>

theorem detached_without_unfinished_aborts:
  "(Cat e = ''detached'' \<and> preserved st (preservedKey e) = None
      \<longrightarrow> scanEvent st e = Inl NilDereference)
   \<and> (scanLines (submatches env) scan0 pre = Inr st \<and> NewEvent (submatches env) l = Inr e
      \<and> Cat e = ''detached'' \<and> preserved st (preservedKey e) = None
      \<longrightarrow> mainEvents env (pre @ l # post) = Inl NilDereference)"
proof (intro conjI impI)
  assume "Cat e = ''detached'' \<and> preserved st (preservedKey e) = None"
  then show "scanEvent st e = Inl NilDereference"
    by (intro scanEvent_detached_missing) simp_all
next
  assume h: "scanLines (submatches env) scan0 pre = Inr st \<and> NewEvent (submatches env) l = Inr e
      \<and> Cat e = ''detached'' \<and> preserved st (preservedKey e) = None"
  then have "scanLine (submatches env) st l = Inl NilDereference"
    by (simp add: scanLine_def scanEvent_detached_missing)
  with h show "mainEvents env (pre @ l # post) = Inl NilDereference"
    by (intro mainEvents_abort [where st = st]) simp_all
qed

lemma getType_lineResumed:
  "getType (zeroEvent\<lparr>fullTrace := lineResumed\<rparr>) = zeroEvent\<lparr>fullTrace := lineResumed, Cat := ''detached''\<rparr>"
  by (simp add: getType_def lineResumed_def zeroEvent_def rx_eval)

lemma NewEvent_lineResumed: "NewEvent (submatches envPair) lineResumed = Inr eventResumed"
  unfolding NewEvent_def getType_lineResumed
  by (simp add: addFields_def addFieldsCat_def getReGroups_def firstSubmatch_def envPair_def
      envOf_def tableGroups_def index_def convertTS_def convertID_def Atoi_def isDigit_def
      zeroEvent_def zeroArgs_def eventResumed_def lineResumed_def lineUnfinished_def)

theorem detached_without_unfinished_aborts_witness:
  "Cat eventResumed = ''detached'' \<and> preserved scan0 (preservedKey eventResumed) = None
   \<and> scanEvent scan0 eventResumed = Inl NilDereference
   \<and> scanLines (submatches envPair) scan0 [] = Inr scan0
   \<and> NewEvent (submatches envPair) lineResumed = Inr eventResumed
   \<and> mainEvents envPair [lineResumed, lineUnfinished] = Inl NilDereference"
proof -
  note t = detached_without_unfinished_aborts [of eventResumed scan0 envPair "[]" lineResumed
      "[lineUnfinished]"]
  have c: "Cat eventResumed = ''detached''" "preserved scan0 (preservedKey eventResumed) = None"
    by (simp_all add: eventResumed_def zeroEvent_def scan0_def)
  from t [THEN conjunct1] c have a: "scanEvent scan0 eventResumed = Inl NilDereference"
    by simp
  from t [THEN conjunct2] c NewEvent_lineResumed
  have b: "mainEvents envPair [lineResumed, lineUnfinished] = Inl NilDereference"
    by simp
  from c a b NewEvent_lineResumed show ?thesis by simp
qed









subsection \<open>The process tree\<close>

lemma setPid_fields:
  "Tid (setPid pt e) = Tid e" "Name (setPid pt e) = Name e" "Args (setPid pt e) = Args e"
  "isCreation (setPid pt e) = isCreation e" "Ts (setPid pt e) = Ts e"
  by (simp_all add: setPid_def isCreation_def split: option.splits)

lemma setPid_update: "setPid pt e = e\<lparr>Pid := Pid (setPid pt e)\<rparr>"
  by (simp add: setPid_def split: option.splits)

lemma treePass_length: "treePass pt evs = (evs', pt') \<Longrightarrow> length evs' = length evs"
  by (induction evs arbitrary: pt evs') (auto simp: Let_def split: prod.splits)

lemma treePass_nth:
  "treePass pt evs = (evs', pt') \<Longrightarrow> i < length evs \<Longrightarrow> evs' ! i = (evs ! i)\<lparr>Pid := Pid (evs' ! i)\<rparr>"
proof (induction evs arbitrary: pt evs' i)
  case Nil
  then show ?case by simp
next
  case (Cons e es)
  then obtain es' where es': "treePass (recordChild pt (setPid pt e)) es = (es', pt')"
    and evs': "evs' = setPid pt e # es'"
    by (auto simp: Let_def split: prod.splits)
  show ?case
  proof (cases i)
    case 0
    with evs' setPid_update [of pt e] show ?thesis by simp
  next
    case (Suc j)
    with Cons.prems(2) Cons.IH [OF es', of j] evs' show ?thesis by simp
  qed
qed

text \<open>
  The invariant of one pass, for a process \<open>A\<close> and a thread \<open>T\<close> it creates: \<open>A\<close> stays
  its own process, and once \<open>T\<close> is mapped to \<open>A\<close> it stays so.
\<close>

lemma treePass_chain:
  assumes "treePass pt evs = (evs', pt')"
    and "pt A = None \<or> pt A = Some A"
    and "\<forall>e\<in>set evs. Tid e = A \<longrightarrow> Pid e = A"
    and "\<forall>e\<in>set evs. isCreation e \<and> Atoi (ReturnValue (Args e)) = Some A
           \<longrightarrow> \<not> Contains (First (Args e)) ''CLONE_THREAD''"
    and "\<forall>e\<in>set evs. isCreation e \<and> Atoi (ReturnValue (Args e)) = Some T
           \<longrightarrow> Tid e = A \<and> Contains (First (Args e)) ''CLONE_THREAD''"
  shows "(pt' A = None \<or> pt' A = Some A)
       \<and> (\<forall>e\<in>set evs'. Tid e = A \<longrightarrow> Pid e = A)
       \<and> (pt T = Some A \<longrightarrow> pt' T = Some A \<and> (\<forall>e\<in>set evs'. Tid e = T \<longrightarrow> Pid e = A))
       \<and> ((\<exists>c\<in>set evs. isCreation c \<and> Atoi (ReturnValue (Args c)) = Some T) \<longrightarrow> pt' T = Some A)"
  using assms
proof (induction evs arbitrary: pt evs')
  case Nil
  then show ?case by auto
next
  case (Cons e es)
  define e1 where "e1 = setPid pt e"
  define pt1 where "pt1 = recordChild pt e1"
  from Cons.prems(1) obtain es' where es': "treePass pt1 es = (es', pt')" and evs': "evs' = e1 # es'"
    by (auto simp: Let_def e1_def pt1_def split: prod.splits)
  have f: "Tid e1 = Tid e" "Args e1 = Args e" "isCreation e1 = isCreation e"
    by (simp_all add: e1_def setPid_fields)
  have pA: "Tid e = A \<Longrightarrow> Pid e1 = A"
    using Cons.prems(2,3) by (auto simp: e1_def setPid_def)
  have notboth: "\<not> (isCreation e \<and> Atoi (ReturnValue (Args e)) = Some T \<and> T = A)"
    using Cons.prems(4,5) by auto
  have okA: "pt1 A = None \<or> pt1 A = Some A"
    using Cons.prems(2,4) by (auto simp: pt1_def recordChild_def f split: option.splits)
  have mk: "isCreation e \<and> Atoi (ReturnValue (Args e)) = Some T \<Longrightarrow> pt1 T = Some A"
    using Cons.prems(5) pA by (auto simp: pt1_def recordChild_def f)
  have keep: "pt T = Some A \<Longrightarrow> pt1 T = Some A"
  proof (cases "isCreation e \<and> Atoi (ReturnValue (Args e)) = Some T")
    case True
    then show ?thesis using mk by simp
  next
    case False
    assume "pt T = Some A"
    with False Cons.prems(2) show ?thesis
      by (auto simp: pt1_def recordChild_def f split: option.splits)
  qed
  have pT: "pt T = Some A \<Longrightarrow> Tid e = T \<Longrightarrow> Pid e1 = A"
    by (simp add: e1_def setPid_def)
  from Cons.prems(3,4,5)
  have ih: "(pt' A = None \<or> pt' A = Some A)
       \<and> (\<forall>e\<in>set es'. Tid e = A \<longrightarrow> Pid e = A)
       \<and> (pt1 T = Some A \<longrightarrow> pt' T = Some A \<and> (\<forall>e\<in>set es'. Tid e = T \<longrightarrow> Pid e = A))
       \<and> ((\<exists>c\<in>set es. isCreation c \<and> Atoi (ReturnValue (Args c)) = Some T) \<longrightarrow> pt' T = Some A)"
    by (intro Cons.IH [OF es' okA]) simp_all
  show ?case
  proof (intro conjI impI)
    show "pt' A = None \<or> pt' A = Some A" using ih by simp
    show "\<forall>e\<in>set evs'. Tid e = A \<longrightarrow> Pid e = A"
      using ih pA by (simp add: evs' f)
  next
    assume "pt T = Some A"
    with keep ih show "pt' T = Some A" by simp
  next
    assume h: "pt T = Some A"
    with keep ih pT show "\<forall>e\<in>set evs'. Tid e = T \<longrightarrow> Pid e = A"
      by (simp add: evs' f)
  next
    assume "\<exists>c\<in>set (e # es). isCreation c \<and> Atoi (ReturnValue (Args c)) = Some T"
    then consider "isCreation e \<and> Atoi (ReturnValue (Args e)) = Some T"
      | "\<exists>c\<in>set es. isCreation c \<and> Atoi (ReturnValue (Args c)) = Some T"
      by auto
    then show "pt' T = Some A"
    proof cases
      case 1
      with mk ih show ?thesis by simp
    next
      case 2
      with ih show ?thesis by simp
    qed
  qed
qed

lemma treePass_keeps:
  assumes "treePass pt evs = (evs', pt')"
  shows "map Tid evs' = map Tid evs \<and> map Args evs' = map Args evs
       \<and> map isCreation evs' = map isCreation evs"
  using assms
  by (induction evs arbitrary: pt evs') (auto simp: Let_def setPid_fields split: prod.splits)

lemma treePass_from:
  "treePass pt evs = (evs', pt') \<Longrightarrow> e' \<in> set evs' \<Longrightarrow> \<exists>e\<in>set evs. \<exists>p. e' = e\<lparr>Pid := p\<rparr>"
proof (induction evs arbitrary: pt evs')
  case Nil
  then show ?case by simp
next
  case (Cons e es)
  then obtain es' where es': "treePass (recordChild pt (setPid pt e)) es = (es', pt')"
    and evs': "evs' = setPid pt e # es'"
    by (auto simp: Let_def split: prod.splits)
  show ?case
  proof (cases "e' = setPid pt e")
    case True
    with setPid_update [of pt e] show ?thesis by auto
  next
    case False
    with Cons.prems(2) evs' have "e' \<in> set es'" by simp
    from Cons.IH [OF es' this] show ?thesis by auto
  qed
qed

lemma metaPass_events: "fst (metaPass G pt m evs) = map (setPid pt) evs"
proof (induction evs arbitrary: m)
  case Nil
  then show ?case by simp
next
  case (Cons e es)
  let ?m = "cloneStep (setPid pt e) (writeStep G (setPid pt e)
              (execveStep G (setPid pt e) (prctlStep G (setPid pt e) m)))"
  have "fst (metaPass G pt m (e # es)) = setPid pt e # fst (metaPass G pt ?m es)"
    by (simp add: Let_def split: prod.splits)
  with Cons.IH [of ?m] show ?case by simp
qed

text \<open>
  C1. Let \<open>evs\<close> be the events after the scan. \<open>A\<close> is a process: its events are logged
  with process id \<open>A\<close>, and no creation call returning \<open>A\<close> has \<^verbatim>\<open>CLONE_THREAD\<close> in its
  arguments. \<open>T\<close> is a thread of \<open>A\<close>: the list holds a creation call \<open>c\<close> of \<open>A\<close> that returns
  \<open>T\<close>, with \<^verbatim>\<open>CLONE_THREAD\<close> in its arguments, and every creation call returning \<open>T\<close> is
  such a call. Then the two passes succeed, they change nothing but process ids, the map
  ends with \<open>T\<close> owned by \<open>A\<close>, and every event of thread \<open>T\<close> has process id \<open>A\<close>,
  as has every event of \<open>A\<close>, wherever \<open>c\<close> stands in the list, so also when events of \<open>T\<close>
  come before \<open>c\<close>. The third
  loop, which sets the process ids once more from the same map, keeps that.
\<close>

theorem thread_events_get_creator_pid:
  assumes c: "c \<in> set evs" "isCreation c" "Tid c = A" "Atoi (ReturnValue (Args c)) = Some T"
      "Contains (First (Args c)) ''CLONE_THREAD''"
    and own: "\<forall>e\<in>set evs. Tid e = A \<longrightarrow> Pid e = A"
    and process: "\<forall>e\<in>set evs. isCreation e \<and> Atoi (ReturnValue (Args e)) = Some A
           \<longrightarrow> \<not> Contains (First (Args e)) ''CLONE_THREAD''"
    and thread: "\<forall>e\<in>set evs. isCreation e \<and> Atoi (ReturnValue (Args e)) = Some T
           \<longrightarrow> Tid e = A \<and> Contains (First (Args e)) ''CLONE_THREAD''"
  shows "\<exists>evs' pt. buildProcessTree evs = Inr (evs', pt)
           \<and> length evs' = length evs
           \<and> pt T = Some A
           \<and> (\<forall>i<length evs. evs' ! i = (evs ! i)\<lparr>Pid := Pid (evs' ! i)\<rparr>
                \<and> (Tid (evs ! i) = T \<or> Tid (evs ! i) = A \<longrightarrow> evs' ! i = (evs ! i)\<lparr>Pid := A\<rparr>))
           \<and> (\<forall>e\<in>set (fst (metaPass G pt m evs')). Tid e = T \<longrightarrow> Pid e = A)"
proof -
  from c(1) obtain first rest where evs: "evs = first # rest"
    by (cases evs) auto
  define pt0 where "pt0 = [Tid first \<mapsto> Pid first]"
  obtain evs1 pt1 where p1: "treePass pt0 evs = (evs1, pt1)"
    by (cases "treePass pt0 evs") auto
  obtain evs2 pt2 where p2: "treePass pt1 evs1 = (evs2, pt2)"
    by (cases "treePass pt1 evs1") auto
  have b: "buildProcessTree evs = Inr (evs2, pt2)"
    using p1 p2 by (simp add: buildProcessTree_def index_def evs pt0_def)
  have ok0: "pt0 A = None \<or> pt0 A = Some A"
    using own by (simp add: pt0_def evs)
  have ex: "\<exists>c\<in>set evs. isCreation c \<and> Atoi (ReturnValue (Args c)) = Some T"
    using c by blast
  from treePass_chain [OF p1 ok0 own process thread] ex
  have r1: "pt1 A = None \<or> pt1 A = Some A" "\<forall>e\<in>set evs1. Tid e = A \<longrightarrow> Pid e = A"
    "pt1 T = Some A"
    by simp_all
  have same: "\<exists>e\<in>set evs. Tid e' = Tid e \<and> Args e' = Args e \<and> isCreation e' = isCreation e"
    if "e' \<in> set evs1" for e'
  proof -
    from treePass_from [OF p1 that] obtain e p where "e \<in> set evs" "e' = e\<lparr>Pid := p\<rparr>"
      by blast
    then show ?thesis by (auto simp: isCreation_def)
  qed
  have process1: "\<forall>e\<in>set evs1. isCreation e \<and> Atoi (ReturnValue (Args e)) = Some A
           \<longrightarrow> \<not> Contains (First (Args e)) ''CLONE_THREAD''"
    using same process by metis
  have thread1: "\<forall>e\<in>set evs1. isCreation e \<and> Atoi (ReturnValue (Args e)) = Some T
           \<longrightarrow> Tid e = A \<and> Contains (First (Args e)) ''CLONE_THREAD''"
    using same thread by metis
  from treePass_chain [OF p2 r1(1,2) process1 thread1] r1(3)
  have r2: "pt2 T = Some A" "\<forall>e\<in>set evs2. Tid e = T \<longrightarrow> Pid e = A"
    "\<forall>e\<in>set evs2. Tid e = A \<longrightarrow> Pid e = A"
    by simp_all
  have len: "length evs1 = length evs" "length evs2 = length evs"
    using treePass_length [OF p1] treePass_length [OF p2] by simp_all
  have nth: "evs2 ! i = (evs ! i)\<lparr>Pid := Pid (evs2 ! i)\<rparr>
               \<and> (Tid (evs ! i) = T \<or> Tid (evs ! i) = A \<longrightarrow> evs2 ! i = (evs ! i)\<lparr>Pid := A\<rparr>)"
    if i: "i < length evs" for i
  proof -
    have a1: "evs1 ! i = (evs ! i)\<lparr>Pid := Pid (evs1 ! i)\<rparr>"
      using treePass_nth [OF p1 i] .
    have a2: "evs2 ! i = (evs1 ! i)\<lparr>Pid := Pid (evs2 ! i)\<rparr>"
      using treePass_nth [OF p2, of i] i len by simp
    have a3: "evs2 ! i = (evs ! i)\<lparr>Pid := Pid (evs2 ! i)\<rparr>"
      by (subst a2, subst a1) simp
    have "Tid (evs2 ! i) = Tid (evs ! i)"
      by (subst a3) simp
    moreover have "evs2 ! i \<in> set evs2"
      using i len by simp
    ultimately have "Tid (evs ! i) = T \<or> Tid (evs ! i) = A \<longrightarrow> Pid (evs2 ! i) = A"
      using r2(2,3) by auto
    with a3 show ?thesis by auto
  qed
  have third: "\<forall>e\<in>set (fst (metaPass G pt2 m evs2)). Tid e = T \<longrightarrow> Pid e = A"
    using r2(1) by (auto simp: metaPass_events setPid_def split: option.splits)
  from b len r2(1) nth third show ?thesis by blast
qed


lemma threadLog_fields:
  "Tid lifeA = 100" "Pid lifeA = 100" "\<not> isCreation lifeA"
  "Tid lifeT = 101" "Pid lifeT = 101" "\<not> isCreation lifeT"
  "Tid writeT = 101" "Pid writeT = 101" "\<not> isCreation writeT"
  "Tid cloneA = 100" "Pid cloneA = 100" "isCreation cloneA"
  "Atoi (ReturnValue (Args cloneA)) = Some 101"
  "Contains (First (Args cloneA)) ''CLONE_THREAD''"
  by (simp_all add: lifeA_def lifeT_def writeT_def cloneA_def zeroEvent_def zeroArgs_def
      isCreation_def HasPrefix_def Atoi_def isDigit_def)

lemma isCreation_Pid: "isCreation (e\<lparr>Pid := p\<rparr>) = isCreation e"
  by (simp add: isCreation_def)

text \<open>One pass is not enough for this list: the events of thread 101 keep process id 101.\<close>

lemma threadLog_one_pass:
  "map Pid (fst (treePass [100 \<mapsto> 100] threadLog)) = [100, 101, 101, 100]"
  by (simp add: threadLog_def setPid_def recordChild_def threadLog_fields Let_def isCreation_Pid)

theorem thread_events_get_creator_pid_witness:
  "Tid (threadLog ! 1) = 101 \<and> Tid (threadLog ! 2) = 101 \<and> threadLog ! 3 = cloneA
   \<and> isCreation cloneA \<and> Tid cloneA = 100 \<and> Atoi (ReturnValue (Args cloneA)) = Some 101
   \<and> Contains (First (Args cloneA)) ''CLONE_THREAD''
   \<and> (\<exists>evs' pt. buildProcessTree threadLog = Inr (evs', pt) \<and> pt 101 = Some 100
         \<and> evs' = map (\<lambda>e. e\<lparr>Pid := 100\<rparr>) threadLog)"
proof -
  have c: "cloneA \<in> set threadLog"
    by (simp add: threadLog_def)
  have own: "\<forall>e\<in>set threadLog. Tid e = 100 \<longrightarrow> Pid e = 100"
    by (simp add: threadLog_def threadLog_fields)
  have process: "\<forall>e\<in>set threadLog. isCreation e \<and> Atoi (ReturnValue (Args e)) = Some 100
           \<longrightarrow> \<not> Contains (First (Args e)) ''CLONE_THREAD''"
    by (simp add: threadLog_def threadLog_fields)
  have thread: "\<forall>e\<in>set threadLog. isCreation e \<and> Atoi (ReturnValue (Args e)) = Some 101
           \<longrightarrow> Tid e = 100 \<and> Contains (First (Args e)) ''CLONE_THREAD''"
    by (simp add: threadLog_def threadLog_fields)
  from thread_events_get_creator_pid [OF c threadLog_fields(12,10,13,14) own process thread,
      of "tableGroups []" meta0]
  obtain evs' pt where r: "buildProcessTree threadLog = Inr (evs', pt)" "pt 101 = Some 100"
    "length evs' = length threadLog"
    "\<forall>i<length threadLog. evs' ! i = (threadLog ! i)\<lparr>Pid := Pid (evs' ! i)\<rparr>
       \<and> (Tid (threadLog ! i) = 101 \<or> Tid (threadLog ! i) = 100 \<longrightarrow> evs' ! i = (threadLog ! i)\<lparr>Pid := 100\<rparr>)"
    by blast
  have all: "\<forall>i<length threadLog. Tid (threadLog ! i) = 101 \<or> Tid (threadLog ! i) = 100"
    by (simp add: threadLog_def threadLog_fields less_Suc_eq nth_Cons')
  have "evs' = map (\<lambda>e. e\<lparr>Pid := 100\<rparr>) threadLog"
  proof (rule nth_equalityI)
    show "length evs' = length (map (\<lambda>e. e\<lparr>Pid := 100\<rparr>) threadLog)"
      using r(3) by simp
    fix i assume "i < length evs'"
    with r(3) have i: "i < length threadLog" by simp
    with r(4) all show "evs' ! i = map (\<lambda>e. e\<lparr>Pid := 100\<rparr>) threadLog ! i"
      by simp
  qed
  with r threadLog_fields show ?thesis by (simp add: threadLog_def)
qed

subsection \<open>Flow events\<close>

lemma prctlStep_flows:
  "metadataEvents (prctlStep G e m) = metadataEvents m" "nextFlowId (prctlStep G e m) = nextFlowId m"
  by (simp_all add: prctlStep_def Let_def)

lemma execveStep_flows:
  "metadataEvents (execveStep G e m) = metadataEvents m" "nextFlowId (execveStep G e m) = nextFlowId m"
  by (simp_all add: execveStep_def Let_def)

lemma writeStep_flows:
  "filter isFlow (metadataEvents (writeStep G e m)) = filter isFlow (metadataEvents m)"
  "nextFlowId (writeStep G e m) = nextFlowId m"
  by (simp_all add: writeStep_def Let_def isFlow_def)

lemma flow_is_flow: "isFlow (flowStart n e)" "isFlow (flowEnd n e c)"
  by (simp_all add: isFlow_def flowStart_def flowEnd_def)

lemma cloneStep_flows:
  "filter isFlow (metadataEvents (cloneStep e m)) =
     filter isFlow (metadataEvents m) @
       (if createsChild e then [flowStart (nextFlowId m) e, flowEnd (nextFlowId m) e (childOf e)] else [])"
  "nextFlowId (cloneStep e m) = (if createsChild e then nextFlowId m + 1 else nextFlowId m)"
  by (auto simp: cloneStep_def createsChild_def childOf_def Let_def flow_is_flow split: option.splits)

lemma metaPass_flows:
  "filter isFlow (metadataEvents (snd (metaPass G pt m evs))) =
     filter isFlow (metadataEvents m) @ flowPairs (nextFlowId m) (filter createsChild (map (setPid pt) evs))"
proof (induction evs arbitrary: m)
  case Nil
  then show ?case by simp
next
  case (Cons e es)
  let ?e = "setPid pt e"
  let ?m = "cloneStep ?e (writeStep G ?e (execveStep G ?e (prctlStep G ?e m)))"
  have s: "snd (metaPass G pt m (e # es)) = snd (metaPass G pt ?m es)"
    by (simp add: Let_def split: prod.splits)
  have f: "filter isFlow (metadataEvents ?m) = filter isFlow (metadataEvents m) @
       (if createsChild ?e then [flowStart (nextFlowId m) ?e, flowEnd (nextFlowId m) ?e (childOf ?e)] else [])"
    by (simp add: cloneStep_flows writeStep_flows execveStep_flows prctlStep_flows)
  have n: "nextFlowId ?m = (if createsChild ?e then nextFlowId m + 1 else nextFlowId m)"
    by (simp add: cloneStep_flows writeStep_flows execveStep_flows prctlStep_flows)
  show ?case
    unfolding s Cons.IH [of ?m] f n by simp
qed

lemma flowPairs_length: "length (flowPairs n cs) = 2 * length cs"
  by (induction cs arbitrary: n) simp_all

lemma flowPairs_nth:
  "k < length cs \<Longrightarrow>
     flowPairs n cs ! (2 * k) = flowStart (n + of_nat k) (cs ! k)
     \<and> flowPairs n cs ! (2 * k + 1) = flowEnd (n + of_nat k) (cs ! k) (childOf (cs ! k))"
proof (induction cs arbitrary: n k)
  case Nil
  then show ?case by simp
next
  case (Cons c cs)
  show ?case
  proof (cases k)
    case 0
    then show ?thesis by simp
  next
    case (Suc j)
    with Cons.prems have j: "j < length cs" by simp
    have a: "flowPairs n (c # cs) ! (2 * k) = flowPairs (n + 1) cs ! (2 * j)"
      "flowPairs n (c # cs) ! (2 * k + 1) = flowPairs (n + 1) cs ! (2 * j + 1)"
      "(c # cs) ! k = cs ! j"
      using Suc by simp_all
    have b: "n + 1 + of_nat j = n + of_nat k"
      using Suc by simp
    from Cons.IH [OF j, of "n + 1"] show ?thesis
      unfolding a b .
  qed
qed

lemma flowEvents_eq: "flowEvents G pt evs = flowPairs 0 (creationCalls pt evs)"
  by (simp add: flowEvents_def creationCalls_def metaPass_flows meta0_def)

lemma flowStart_fields:
  "Ph (flowStart n e) = ''s''" "Pid (flowStart n e) = Pid e" "Tid (flowStart n e) = Tid e"
  "Ts (flowStart n e) = Ts e + 1" "Id (flowStart n e) = n" "Name (flowStart n e) = Name e"
  by (simp_all add: flowStart_def)

lemma flowEnd_fields:
  "Ph (flowEnd n e c) = ''f''" "Tid (flowEnd n e c) = c"
  "Pid (flowEnd n e c) = (if Contains (First (Args e)) ''CLONE_THREAD'' then Pid e else c)"
  "Ts (flowEnd n e c) = Ts e + 1" "Id (flowEnd n e c) = n" "Name (flowEnd n e c) = Name e"
  by (simp_all add: flowEnd_def)

lemma creationCalls_nth:
  assumes "k < length (creationCalls pt evs)"
  shows "isCreation (creationCalls pt evs ! k)"
    and "Atoi (ReturnValue (Args (creationCalls pt evs ! k))) = Some (childOf (creationCalls pt evs ! k))"
proof -
  have "creationCalls pt evs ! k \<in> set (creationCalls pt evs)"
    using assms by simp
  then have c: "createsChild (creationCalls pt evs ! k)"
    by (simp add: creationCalls_def)
  then show "isCreation (creationCalls pt evs ! k)"
    by (simp add: createsChild_def)
  from c show "Atoi (ReturnValue (Args (creationCalls pt evs ! k))) = Some (childOf (creationCalls pt evs ! k))"
    by (auto simp: createsChild_def childOf_def)
qed

text \<open>
  C6 (as amended). The flow events of the third loop come in pairs, one pair for each
  creation call (\<^verbatim>\<open>fork\<close>, or a name starting with \<^verbatim>\<open>clone\<close>) whose return text is an
  integer, in the order of the calls, and nothing else is a flow event. For the call
  number \<open>k\<close> (from 0) the pair is a \<^verbatim>\<open>s\<close> event on the process and thread id of the
  caller and a \<^verbatim>\<open>f\<close> event on the returned id (as its thread id, and as its process id
  too unless the arguments hold \<^verbatim>\<open>CLONE_THREAD\<close>, when the process id is the caller's),
  both with the timestamp of the call plus one (in the arithmetic of \<^verbatim>\<open>int\<close>: one
  microsecond later unless the timestamp is the largest \<^verbatim>\<open>int\<close>) and both with the
  identifier \<open>k\<close>. A creation call whose return text is no integer has no flow
  event.
\<close>

theorem flow_pairs_of_creation_calls:
  "creationCalls pt evs = filter (\<lambda>e. isCreation e \<and> Atoi (ReturnValue (Args e)) \<noteq> None) (map (setPid pt) evs)
   \<and> flowEvents G pt evs = filter (\<lambda>e. Cat e = ''clone'') (metadataEvents (snd (metaPass G pt meta0 evs)))
   \<and> length (flowEvents G pt evs) = 2 * length (creationCalls pt evs)
   \<and> (\<forall>k<length (creationCalls pt evs).
        Atoi (ReturnValue (Args (creationCalls pt evs ! k))) = Some (childOf (creationCalls pt evs ! k))
        \<and> flowEvents G pt evs ! (2 * k) = flowStart (of_nat k) (creationCalls pt evs ! k)
        \<and> flowEvents G pt evs ! (2 * k + 1)
            = flowEnd (of_nat k) (creationCalls pt evs ! k) (childOf (creationCalls pt evs ! k))
        \<and> Ph (flowEvents G pt evs ! (2 * k)) = ''s''
        \<and> Pid (flowEvents G pt evs ! (2 * k)) = Pid (creationCalls pt evs ! k)
        \<and> Tid (flowEvents G pt evs ! (2 * k)) = Tid (creationCalls pt evs ! k)
        \<and> Ts (flowEvents G pt evs ! (2 * k)) = Ts (creationCalls pt evs ! k) + 1
        \<and> Id (flowEvents G pt evs ! (2 * k)) = of_nat k
        \<and> Ph (flowEvents G pt evs ! (2 * k + 1)) = ''f''
        \<and> Tid (flowEvents G pt evs ! (2 * k + 1)) = childOf (creationCalls pt evs ! k)
        \<and> Pid (flowEvents G pt evs ! (2 * k + 1))
            = (if Contains (First (Args (creationCalls pt evs ! k))) ''CLONE_THREAD''
               then Pid (creationCalls pt evs ! k) else childOf (creationCalls pt evs ! k))
        \<and> Ts (flowEvents G pt evs ! (2 * k + 1)) = Ts (creationCalls pt evs ! k) + 1
        \<and> Id (flowEvents G pt evs ! (2 * k + 1)) = of_nat k
        \<and> (sint (Ts (creationCalls pt evs ! k)) < 2 ^ 63 - 1 \<longrightarrow>
             sint (Ts (flowEvents G pt evs ! (2 * k))) = sint (Ts (creationCalls pt evs ! k)) + 1
             \<and> sint (Ts (flowEvents G pt evs ! (2 * k + 1)))
                 = sint (Ts (creationCalls pt evs ! k)) + 1))"
proof (intro conjI allI impI)
  show "creationCalls pt evs
          = filter (\<lambda>e. isCreation e \<and> Atoi (ReturnValue (Args e)) \<noteq> None) (map (setPid pt) evs)"
    by (simp add: creationCalls_def createsChild_def [abs_def])
  show "flowEvents G pt evs = filter (\<lambda>e. Cat e = ''clone'') (metadataEvents (snd (metaPass G pt meta0 evs)))"
    by (simp add: flowEvents_def isFlow_def [abs_def])
  show "length (flowEvents G pt evs) = 2 * length (creationCalls pt evs)"
    by (simp add: flowEvents_eq flowPairs_length)
next
  fix k assume k: "k < length (creationCalls pt evs)"
  have n: "flowEvents G pt evs ! (2 * k) = flowStart (of_nat k) (creationCalls pt evs ! k)"
    "flowEvents G pt evs ! (2 * k + 1)
       = flowEnd (of_nat k) (creationCalls pt evs ! k) (childOf (creationCalls pt evs ! k))"
    using flowPairs_nth [OF k, of 0] by (simp_all add: flowEvents_eq)
  show "Atoi (ReturnValue (Args (creationCalls pt evs ! k))) = Some (childOf (creationCalls pt evs ! k))"
    using k by (rule creationCalls_nth)
  show "flowEvents G pt evs ! (2 * k) = flowStart (of_nat k) (creationCalls pt evs ! k)"
    using n by simp
  show "flowEvents G pt evs ! (2 * k + 1)
            = flowEnd (of_nat k) (creationCalls pt evs ! k) (childOf (creationCalls pt evs ! k))"
    using n by simp
  show "Ph (flowEvents G pt evs ! (2 * k)) = ''s''"
    "Pid (flowEvents G pt evs ! (2 * k)) = Pid (creationCalls pt evs ! k)"
    "Tid (flowEvents G pt evs ! (2 * k)) = Tid (creationCalls pt evs ! k)"
    "Ts (flowEvents G pt evs ! (2 * k)) = Ts (creationCalls pt evs ! k) + 1"
    "Id (flowEvents G pt evs ! (2 * k)) = of_nat k"
    using n by (simp_all add: flowStart_fields)
  show "Ph (flowEvents G pt evs ! (2 * k + 1)) = ''f''"
    "Tid (flowEvents G pt evs ! (2 * k + 1)) = childOf (creationCalls pt evs ! k)"
    "Pid (flowEvents G pt evs ! (2 * k + 1))
            = (if Contains (First (Args (creationCalls pt evs ! k))) ''CLONE_THREAD''
               then Pid (creationCalls pt evs ! k) else childOf (creationCalls pt evs ! k))"
    "Ts (flowEvents G pt evs ! (2 * k + 1)) = Ts (creationCalls pt evs ! k) + 1"
    "Id (flowEvents G pt evs ! (2 * k + 1)) = of_nat k"
    using n by (simp_all add: flowEnd_fields)
  assume "sint (Ts (creationCalls pt evs ! k)) < 2 ^ 63 - 1"
  then show "sint (Ts (flowEvents G pt evs ! (2 * k))) = sint (Ts (creationCalls pt evs ! k)) + 1"
    "sint (Ts (flowEvents G pt evs ! (2 * k + 1))) = sint (Ts (creationCalls pt evs ! k)) + 1"
    using n by (simp_all add: flowStart_fields flowEnd_fields go_int_succ)
qed

lemma forkA_fields:
  "isCreation forkA" "Atoi (ReturnValue (Args forkA)) = Some 102" "Tid forkA = 100" "Pid forkA = 100"
  "\<not> Contains (First (Args forkA)) ''CLONE_THREAD''" "Ts forkA = 20"
  by (simp_all add: forkA_def zeroEvent_def zeroArgs_def isCreation_def HasPrefix_def Atoi_def
      isDigit_def)

lemma failedClone_fields:
  "isCreation failedClone" "Atoi (ReturnValue (Args failedClone)) = None" "Tid failedClone = 100"
  "Pid failedClone = 100" "Name failedClone = ''clone''"
  by (simp_all add: failedClone_def zeroEvent_def zeroArgs_def isCreation_def HasPrefix_def Atoi_def
      isDigit_def)

lemma setPid_same: "pt (Tid e) = Some (Pid e) \<Longrightarrow> setPid pt e = e"
  by (simp add: setPid_def)

lemma creationCalls_example:
  "creationCalls [100 \<mapsto> 100] [cloneA, forkA, failedClone] = [cloneA, forkA]"
  by (simp add: creationCalls_def createsChild_def setPid_same threadLog_fields forkA_fields
      failedClone_fields)

theorem flow_pairs_of_creation_calls_witness:
  "creationCalls [100 \<mapsto> 100] [cloneA, forkA, failedClone] = [cloneA, forkA]
   \<and> length (flowEvents (tableGroups []) [100 \<mapsto> 100] [cloneA, forkA, failedClone]) = 4
   \<and> flowEvents (tableGroups []) [100 \<mapsto> 100] [cloneA, forkA, failedClone] ! 0 = flowStart 0 cloneA
   \<and> flowEvents (tableGroups []) [100 \<mapsto> 100] [cloneA, forkA, failedClone] ! 1 = flowEnd 0 cloneA 101
   \<and> flowEvents (tableGroups []) [100 \<mapsto> 100] [cloneA, forkA, failedClone] ! 2 = flowStart 1 forkA
   \<and> flowEvents (tableGroups []) [100 \<mapsto> 100] [cloneA, forkA, failedClone] ! 3 = flowEnd 1 forkA 102
   \<and> Pid (flowEnd 0 cloneA 101) = 100 \<and> Pid (flowEnd 1 forkA 102) = 102
   \<and> Ts (flowStart 1 forkA) = 21 \<and> Ts (flowEnd 1 forkA 102) = 21"
proof -
  note t = flow_pairs_of_creation_calls [of "[100 \<mapsto> 100]" "[cloneA, forkA, failedClone]"
      "tableGroups []"]
  note cc = creationCalls_example
  have ch: "childOf cloneA = 101" "childOf forkA = 102"
    by (simp_all add: childOf_def threadLog_fields forkA_fields)
  from t [THEN conjunct2, THEN conjunct2, THEN conjunct1]
  have len: "length (flowEvents (tableGroups []) [100 \<mapsto> 100] [cloneA, forkA, failedClone]) = 4"
    by (simp add: cc)
  note n = t [THEN conjunct2, THEN conjunct2, THEN conjunct2, rule_format]
  have k0: "0 < length (creationCalls [100 \<mapsto> 100] [cloneA, forkA, failedClone])"
    and k1: "1 < length (creationCalls [100 \<mapsto> 100] [cloneA, forkA, failedClone])"
    by (simp_all add: cc)
  from n [OF k0]
  have a: "flowEvents (tableGroups []) [100 \<mapsto> 100] [cloneA, forkA, failedClone] ! 0 = flowStart 0 cloneA"
    "flowEvents (tableGroups []) [100 \<mapsto> 100] [cloneA, forkA, failedClone] ! 1 = flowEnd 0 cloneA 101"
    by (simp_all add: cc ch)
  from n [OF k1]
  have b: "flowEvents (tableGroups []) [100 \<mapsto> 100] [cloneA, forkA, failedClone] ! 2 = flowStart 1 forkA"
    "flowEvents (tableGroups []) [100 \<mapsto> 100] [cloneA, forkA, failedClone] ! 3 = flowEnd 1 forkA 102"
    by (simp_all add: cc ch)
  have f: "Pid (flowEnd 0 cloneA 101) = 100" "Pid (flowEnd 1 forkA 102) = 102"
    "Ts (flowStart 1 forkA) = 21" "Ts (flowEnd 1 forkA 102) = 21"
    by (simp_all add: flowEnd_fields flowStart_fields threadLog_fields forkA_fields)
  from cc len a b f show ?thesis by simp
qed

text \<open>
  C6 as stated fails: a \<^verbatim>\<open>clone\<close> call that failed is a creation call, and the third loop
  synthesizes no event for it.
\<close>

theorem failed_creation_call_has_no_flow:
  "isCreation failedClone
   \<and> metadataEvents (snd (metaPass (tableGroups []) Map.empty meta0 [failedClone])) = []"
proof -
  have "setPid Map.empty failedClone = failedClone"
    by (simp add: setPid_def)
  then show ?thesis
    by (simp add: failedClone_fields prctlStep_def execveStep_def writeStep_def cloneStep_def
        meta0_def)
qed

subsection \<open>The first flow identifier\<close>

lemma marshalEvent_id: "(''id'' \<in> fst ` set (marshalEvent e)) = (Id e \<noteq> 0)"
  by (simp add: marshalEvent_def omitempty_def)

text \<open>
  C10. The counter of flow identifiers starts at 0, and the serializer writes the \<^verbatim>\<open>id\<close>
  key of an event exactly when its identifier is not 0. So the two flow events of the
  first creation call that has any carry the identifier 0 and are written with no
  \<^verbatim>\<open>id\<close> key.
\<close>

theorem first_flow_pair_has_no_id:
  "nextFlowId meta0 = 0
   \<and> ((''id'' \<in> fst ` set (marshalEvent e)) = (Id e \<noteq> 0))
   \<and> (creationCalls pt evs \<noteq> [] \<longrightarrow>
        Ph (flowEvents G pt evs ! 0) = ''s'' \<and> Id (flowEvents G pt evs ! 0) = 0
        \<and> Ph (flowEvents G pt evs ! 1) = ''f'' \<and> Id (flowEvents G pt evs ! 1) = 0
        \<and> ''id'' \<notin> fst ` set (marshalEvent (flowEvents G pt evs ! 0))
        \<and> ''id'' \<notin> fst ` set (marshalEvent (flowEvents G pt evs ! 1)))"
proof (intro conjI impI)
  show "nextFlowId meta0 = 0" by (simp add: meta0_def)
  show "(''id'' \<in> fst ` set (marshalEvent e)) = (Id e \<noteq> 0)" by (rule marshalEvent_id)
next
  assume "creationCalls pt evs \<noteq> []"
  then have k: "0 < length (creationCalls pt evs)" by simp
  from flowPairs_nth [OF k, of 0]
  have n: "flowEvents G pt evs ! 0 = flowStart 0 (creationCalls pt evs ! 0)"
    "flowEvents G pt evs ! 1
       = flowEnd 0 (creationCalls pt evs ! 0) (childOf (creationCalls pt evs ! 0))"
    by (simp_all add: flowEvents_eq)
  show "Ph (flowEvents G pt evs ! 0) = ''s''" "Id (flowEvents G pt evs ! 0) = 0"
    "Ph (flowEvents G pt evs ! 1) = ''f''" "Id (flowEvents G pt evs ! 1) = 0"
    "''id'' \<notin> fst ` set (marshalEvent (flowEvents G pt evs ! 0))"
    "''id'' \<notin> fst ` set (marshalEvent (flowEvents G pt evs ! 1))"
    unfolding n by (simp_all add: flowStart_fields flowEnd_fields marshalEvent_id)
qed

theorem first_flow_pair_has_no_id_witness:
  "creationCalls [100 \<mapsto> 100] [cloneA, forkA, failedClone] \<noteq> []
   \<and> Id (flowEvents (tableGroups []) [100 \<mapsto> 100] [cloneA, forkA, failedClone] ! 0) = 0
   \<and> Id (flowEvents (tableGroups []) [100 \<mapsto> 100] [cloneA, forkA, failedClone] ! 1) = 0
   \<and> ''id'' \<notin> fst ` set (marshalEvent (flowEvents (tableGroups []) [100 \<mapsto> 100] [cloneA, forkA, failedClone] ! 0))
   \<and> ''id'' \<notin> fst ` set (marshalEvent (flowEvents (tableGroups []) [100 \<mapsto> 100] [cloneA, forkA, failedClone] ! 1))
   \<and> marshalEvent (flowStart 0 cloneA) =
       [(''name'', JString ''clone''), (''cat'', JString ''clone''), (''ph'', JString ''s''),
        (''pid'', JInt 100), (''tid'', JInt 100), (''ts'', JInt 2), (''args'', JObject [])]"
proof -
  have ne: "creationCalls [100 \<mapsto> 100] [cloneA, forkA, failedClone] \<noteq> []"
    by (simp add: creationCalls_example)
  note t = first_flow_pair_has_no_id [of zeroEvent "[100 \<mapsto> 100]" "[cloneA, forkA, failedClone]"
      "tableGroups []", THEN conjunct2, THEN conjunct2, rule_format, OF ne]
  have m: "marshalEvent (flowStart 0 cloneA) =
       [(''name'', JString ''clone''), (''cat'', JString ''clone''), (''ph'', JString ''s''),
        (''pid'', JInt 100), (''tid'', JInt 100), (''ts'', JInt 2), (''args'', JObject [])]"
    by (simp add: marshalEvent_def marshalArgs_def omitempty_def flowStart_def cloneA_def
        zeroEvent_def zeroArgs_def)
  from ne t m show ?thesis by simp
qed

end
